theory Spec2Isabelle
  imports Complex_Main "HOL-Library.Multiset"
begin

section \<open>Floating-point arithmetic\<close>

text \<open>
  A Python float is an IEEE 754 binary64 number, modelled by the real number it denotes.
  Every arithmetic operation on floats returns the exact result rounded to the nearest
  float, a tie going to the float whose significand is even. A float has a significand
  of 53 bits; the floats of the binade of exponent \<open>e\<close> are the multiples of
  \<open>2 ^ (e - 52)\<close>, and below the smallest normal binade, of exponent \<open>-1022\<close>, the
  spacing stays that of this binade. Overflow to an infinity is not modelled: the draws
  lie between 0 and 1, so that no value computed from them exceeds 4.
\<close>

definition round_half_even :: "real \<Rightarrow> int" where
  "round_half_even t =
     (let f = \<lfloor>t\<rfloor>
      in if t - of_int f < 1 / 2 then f
         else if 1 / 2 < t - of_int f then f + 1
         else if even f then f else f + 1)"

definition float_exponent :: "real \<Rightarrow> int" where
  "float_exponent x = max \<lfloor>log 2 \<bar>x\<bar>\<rfloor> (- 1022)"

definition round64 :: "real \<Rightarrow> real" where
  "round64 x =
     (if x = 0 then 0
      else let u = 2 powi (float_exponent x - 52)
           in u * of_int (round_half_even (x / u)))"

section \<open>Monte Carlo sampling\<close>

text \<open>
  \<^verbatim>\<open>
  def sample():
      x = random.uniform(0, 1)
      y = random.uniform(0, 1)
      d = x*x + y*y
      return 1 if d < 1 else 0
  \<close>
  The two draws of the random generator, floats between 0 and 1, are the arguments of
  the model. Each product and the sum are float operations; the comparison with 1 is exact.
\<close>

definition sample :: "real \<Rightarrow> real \<Rightarrow> int" where
  "sample x y = (let d = round64 (round64 (x * x) + round64 (y * y)) in if d < 1 then 1 else 0)"

text \<open>
  \<^verbatim>\<open>
  results = client.gather(futures)
  4*sum(results)/len(results)
  \<close>
  Sum and product are computed on Python integers; the division of two integers returns
  the quotient rounded to a float, and raises ZeroDivisionError on an empty list of results.
\<close>

datatype py_error = ZeroDivisionError

definition pi_estimate :: "int list \<Rightarrow> py_error + real" where
  "pi_estimate results =
     (if length results = 0 then Inl ZeroDivisionError
      else Inr (round64 (real_of_int (4 * sum_list results) / real (length results))))"

definition gather_samples :: "(real \<times> real) list \<Rightarrow> int list" where
  "gather_samples draws = map (\<lambda>(x, y). sample x y) draws"

section \<open>Price classes\<close>

text \<open>
  \<^verbatim>\<open>
  THRESHOLDS = (1200, 11000)

  def threshold(p):
      if p < THRESHOLDS[0]:
          return 0
      if p > THRESHOLDS[1]:
          return 2
      else:
          return 1
  \<close>
\<close>

definition THRESHOLDS :: "int \<times> int" where
  "THRESHOLDS = (1200, 11000)"

definition threshold :: "int \<Rightarrow> int" where
  "threshold p =
     (if p < fst THRESHOLDS then 0
      else if p > snd THRESHOLDS then 2
      else 1)"

section \<open>The bank actor\<close>

text \<open>
  \<^verbatim>\<open>
  class Bank:
      funds = 0
      def __init__(self, funds):
          self.funds = funds
      async def borrow(self, amount):
          loan = min(amount, self.funds)
          self.funds -= loan
          return loan
  \<close>
  The method has no suspension point, so a call runs as one step on the actor's state:
  it returns the loan and the updated bank.
\<close>

record bank =
  funds :: int

definition Bank :: "int \<Rightarrow> bank" where
  "Bank f = \<lparr>funds = f\<rparr>"

definition borrow :: "int \<Rightarrow> bank \<Rightarrow> int \<times> bank" where
  "borrow amount b =
     (let loan = min amount (funds b)
      in (loan, b\<lparr>funds := funds b - loan\<rparr>))"

text \<open>A sequence of calls: the loans in call order, and the bank after the last call.\<close>

fun borrow_all :: "int list \<Rightarrow> bank \<Rightarrow> int list \<times> bank" where
  "borrow_all [] b = ([], b)"
| "borrow_all (amount # amounts) b =
     (case borrow amount b of
        (loan, b') \<Rightarrow> (case borrow_all amounts b' of (loans, b'') \<Rightarrow> (loan # loans, b'')))"

section \<open>Random walks driven by completion\<close>

text \<open>
  \<^verbatim>\<open>
  def step(pos):
      id = pos[0]
      x = pos[1] + random.uniform(-1, 1)
      y = pos[2] + random.uniform(-1, 1)
      return (id, x,y)
  \<close>
  A position is the triple (id, x, y); the two draws of one call are an argument.
  Coordinates are reals: the rounding of floating-point addition is not modelled.
\<close>

type_synonym pos = "int \<times> real \<times> real"

definition step :: "real \<times> real \<Rightarrow> pos \<Rightarrow> pos" where
  "step draws p =
     (case draws of (dx, dy) \<Rightarrow>
        (case p of (ident, px, py) \<Rightarrow> (ident, px + dx, py + dy)))"

definition max_distance_squared :: real where
  "max_distance_squared = 2 * 2"

text \<open>The test of the loop: \<^verbatim>\<open>(r[1]**2 + r[2]**2) < max_distance_squared\<close>.\<close>

definition within_distance :: "pos \<Rightarrow> bool" where
  "within_distance r = ((fst (snd r))\<^sup>2 + (snd (snd r))\<^sup>2 < max_distance_squared)"

text \<open>
  \<^verbatim>\<open>
  ac = as_completed([client.submit(step, (i,0,0)) for i in range(num_walks)])

  for future in ac:
      r = future.result()
      print(r)
      if (r[1]**2 + r[2]**2) < max_distance_squared:
          ac.add(client.submit(step, r))
      else:
          print(f"Walk {r[0]} is done")
  \<close>
  The state of the loop is the set of outstanding futures held by \<^verbatim>\<open>ac\<close> (each one
  named by the argument it was submitted with), the log of every call of
  \<^verbatim>\<open>client.submit\<close>, and the lines printed so far.
\<close>

datatype line = Result pos | Walk_done int

record loop_state =
  pending :: "pos list"
  submitted :: "pos list"
  printed :: "line list"

text \<open>
  How the \<^verbatim>\<open>for\<close> statement ended: the iterator was exhausted, an exception left
  the loop, or the loop is still blocked waiting for the next completion (the schedule
  below has run out).
\<close>

datatype 'e ending = Exhausted | Raised 'e | Waiting

text \<open>
  The next future to complete is chosen by the pool, not by the loop: the choice is
  an input of the model, a number that selects one of the outstanding futures. The
  iterator hands the future out and forgets it. The loop asks only while futures are
  outstanding, so the list is never empty here.
\<close>

definition next_completed :: "nat \<Rightarrow> pos list \<Rightarrow> pos \<times> pos list" where
  "next_completed c ps =
     (let i = c mod length ps in (ps ! i, take i ps @ drop (Suc i) ps))"

text \<open>The body of the loop once \<^verbatim>\<open>future.result()\<close> has returned \<open>r\<close>.\<close>

definition loop_body :: "(pos \<Rightarrow> bool) \<Rightarrow> pos \<Rightarrow> loop_state \<Rightarrow> loop_state" where
  "loop_body should_continue r st =
     (let st1 = st\<lparr>printed := printed st @ [Result r]\<rparr>
      in if should_continue r
         then st1\<lparr>pending := pending st1 @ [r], submitted := submitted st1 @ [r]\<rparr>
         else st1\<lparr>printed := printed st1 @ [Walk_done (fst r)]\<rparr>)"

text \<open>
  The loop, for a supplied step function and test. The step function runs on a worker and
  may fail (\<open>Inl\<close>); \<^verbatim>\<open>future.result()\<close> then raises the worker's exception in the
  loop, which has no handler. The schedule lists, for each iteration, the choice of the
  completed future and the random draws of its step; when the schedule is used up with
  futures outstanding the loop is left waiting.
\<close>

fun as_completed_loop ::
  "('r \<Rightarrow> pos \<Rightarrow> 'e + pos) \<Rightarrow> (pos \<Rightarrow> bool) \<Rightarrow> (nat \<times> 'r) list \<Rightarrow> loop_state
     \<Rightarrow> 'e ending \<times> loop_state" where
  "as_completed_loop stepf should_continue [] st =
     (if pending st = [] then (Exhausted, st) else (Waiting, st))"
| "as_completed_loop stepf should_continue ((c, d) # schedule) st =
     (if pending st = [] then (Exhausted, st)
      else (case next_completed c (pending st) of
        (a, rest) \<Rightarrow>
          (case stepf d a of
             Inl e \<Rightarrow> (Raised e, st\<lparr>pending := rest\<rparr>)
           | Inr r \<Rightarrow>
               as_completed_loop stepf should_continue schedule
                 (loop_body should_continue r (st\<lparr>pending := rest\<rparr>)))))"

definition run ::
  "('r \<Rightarrow> pos \<Rightarrow> 'e + pos) \<Rightarrow> (pos \<Rightarrow> bool) \<Rightarrow> pos list \<Rightarrow> (nat \<times> 'r) list
     \<Rightarrow> 'e ending \<times> loop_state" where
  "run stepf should_continue seed_items schedule =
     as_completed_loop stepf should_continue schedule
       \<lparr>pending = seed_items, submitted = seed_items, printed = []\<rparr>"

text \<open>The cell as written: \<open>num_walks\<close> walkers from the origin, the random step, the distance test.\<close>

definition seeds :: "nat \<Rightarrow> pos list" where
  "seeds num_walks = map (\<lambda>i. (int i, 0, 0)) [0..<num_walks]"

definition random_walks :: "nat \<Rightarrow> (nat \<times> real \<times> real) list \<Rightarrow> unit ending \<times> loop_state" where
  "random_walks num_walks schedule =
     run (\<lambda>d p. Inr (step d p)) within_distance (seeds num_walks) schedule"

subsection \<open>Reading the output\<close>

text \<open>The task a printed line is about.\<close>

fun line_id :: "line \<Rightarrow> int" where
  "line_id (Result r) = fst r"
| "line_id (Walk_done i) = i"

definition lines_of :: "int \<Rightarrow> line list \<Rightarrow> line list" where
  "lines_of i ls = filter (\<lambda>l. line_id l = i) ls"

definition items_of :: "int \<Rightarrow> pos list \<Rightarrow> pos list" where
  "items_of i ps = filter (\<lambda>p. fst p = i) ps"

text \<open>The terminal results: the results printed right before a \<open>Walk ... is done\<close> line.\<close>

fun finals :: "line list \<Rightarrow> pos list" where
  "finals (Result r # Walk_done i # ls) = r # finals ls"
| "finals (l # ls) = finals ls"
| "finals [] = []"

text \<open>
  A chain of step results of one task: each result is what the step function returned,
  for some draws, on the previous one.
\<close>

fun chain :: "('r \<Rightarrow> pos \<Rightarrow> 'e + pos) \<Rightarrow> pos \<Rightarrow> pos list \<Rightarrow> bool" where
  "chain stepf a [] = True"
| "chain stepf a (r # rs) = ((\<exists>d. stepf d a = Inr r) \<and> chain stepf r rs)"

text \<open>
  A task stops within \<open>n\<close> steps under the draws \<open>D\<close>: in whatever order draws of \<open>D\<close>
  are handed to its steps, each step returns a result, and the test is false on one of
  the first \<open>n\<close> results.
\<close>

fun stops_within ::
  "'r set \<Rightarrow> ('r \<Rightarrow> pos \<Rightarrow> 'e + pos) \<Rightarrow> (pos \<Rightarrow> bool) \<Rightarrow> nat \<Rightarrow> pos \<Rightarrow> bool" where
  "stops_within D stepf should_continue 0 a = False"
| "stops_within D stepf should_continue (Suc n) a =
     (\<forall>d\<in>D. case stepf d a of
               Inl e \<Rightarrow> False
             | Inr r \<Rightarrow> should_continue r \<longrightarrow> stops_within D stepf should_continue n r)"

definition preserves_id :: "('r \<Rightarrow> pos \<Rightarrow> 'e + pos) \<Rightarrow> bool" where
  "preserves_id stepf = (\<forall>d a r. stepf d a = Inr r \<longrightarrow> fst r = fst a)"

text \<open>The results printed, in order, without the \<open>Walk ... is done\<close> lines.\<close>

fun results :: "line list \<Rightarrow> pos list" where
  "results [] = []"
| "results (Result r # ls) = r # results ls"
| "results (Walk_done i # ls) = results ls"

text \<open>
  The record of one task \<open>s\<close> of the seed batch in a state of the loop. While the task
  is alive its printed lines are the results \<open>rs\<close> observed so far, all of which passed
  the test, its one outstanding submission is the last of them (the seed itself at the
  start), and the submissions made for it are the seed and these results.
\<close>

definition task_alive ::
  "('r \<Rightarrow> pos \<Rightarrow> 'e + pos) \<Rightarrow> (pos \<Rightarrow> bool) \<Rightarrow> loop_state \<Rightarrow> pos \<Rightarrow> pos list \<Rightarrow> bool" where
  "task_alive stepf should_continue st s rs =
     (lines_of (fst s) (printed st) = map Result rs
      \<and> list_all should_continue rs
      \<and> chain stepf s rs
      \<and> items_of (fst s) (pending st) = [last (s # rs)]
      \<and> items_of (fst s) (submitted st) = s # rs)"

text \<open>
  Once the task is done, its printed lines are the results that passed the test, then the
  result \<open>r\<close> that failed it, then the closing line; nothing of it is outstanding.
\<close>

definition task_done ::
  "('r \<Rightarrow> pos \<Rightarrow> 'e + pos) \<Rightarrow> (pos \<Rightarrow> bool) \<Rightarrow> loop_state \<Rightarrow> pos \<Rightarrow> pos list \<Rightarrow> pos \<Rightarrow> bool" where
  "task_done stepf should_continue st s rs r =
     (lines_of (fst s) (printed st) = map Result rs @ [Result r, Walk_done (fst s)]
      \<and> list_all should_continue rs \<and> \<not> should_continue r
      \<and> chain stepf s (rs @ [r])
      \<and> items_of (fst s) (pending st) = []
      \<and> items_of (fst s) (submitted st) = s # rs)"

subsection \<open>The reference scenario\<close>

text \<open>
  The scenario of the specification replaces the random step by a fixed one: always
  \<open>+0.5\<close> to \<open>x\<close>. It draws nothing and never fails. Every position and every
  squared distance of the scenario is a multiple of 1/4 below 8, so floating-point
  arithmetic computes them without rounding.
\<close>

definition delta_step :: "unit \<Rightarrow> pos \<Rightarrow> unit + pos" where
  "delta_step d p = Inr (fst p, fst (snd p) + 1 / 2, snd (snd p))"

section \<open>Properties of the rounding, the sampling, the price classes and the bank\<close>

subsection \<open>Rounding\<close>

lemma rhe_err: "\<bar>of_int (round_half_even t) - t\<bar> \<le> 1 / 2"
  unfolding round_half_even_def Let_def by (auto simp: abs_if; linarith)

lemma rhe_le: "t \<le> of_int N \<Longrightarrow> round_half_even t \<le> N"
  unfolding round_half_even_def Let_def by (auto simp: floor_le_iff; linarith)

lemma rhe_ge: "of_int N \<le> t \<Longrightarrow> N \<le> round_half_even t"
  unfolding round_half_even_def Let_def by (auto simp: le_floor_iff; linarith)

lemma rhe_near: "\<bar>t - of_int k\<bar> < 1 / 2 \<Longrightarrow> round_half_even t = k"
  using rhe_err [of t] by linarith

lemma exponent_bounds:
  assumes "x \<noteq> 0"
  shows "2 powi \<lfloor>log 2 \<bar>x\<bar>\<rfloor> \<le> \<bar>x\<bar> \<and> \<bar>x\<bar> < 2 powi (\<lfloor>log 2 \<bar>x\<bar>\<rfloor> + 1)"
proof -
  let ?e = "\<lfloor>log 2 \<bar>x\<bar>\<rfloor>"
  have x: "0 < \<bar>x\<bar>" using assms by simp
  have "2 powr (of_int ?e) \<le> \<bar>x\<bar> \<and> \<bar>x\<bar> < 2 powr (of_int ?e + 1)"
    using floor_log_eq_powr_iff [OF x, of 2 ?e] by simp
  moreover have "(2::real) powr (of_int ?e) = 2 powi ?e"
    by (rule powr_real_of_int') simp_all
  moreover have "(2::real) powr (of_int ?e + 1) = 2 powi (?e + 1)"
    using powr_real_of_int' [of 2 "?e + 1"] by simp
  ultimately show ?thesis by simp
qed

lemma float_exponent_le:
  assumes "x \<noteq> 0" and "\<bar>x\<bar> \<le> 2 powi k" and "- 1022 \<le> k"
  shows "float_exponent x \<le> k"
proof -
  let ?e = "\<lfloor>log 2 \<bar>x\<bar>\<rfloor>"
  have le: "(2::real) powi ?e \<le> 2 powi k" using exponent_bounds [OF assms(1)] assms(2) by linarith
  have "?e \<le> k"
  proof (rule ccontr)
    assume "\<not> ?e \<le> k"
    then have "k < ?e" by simp
    then have "(2::real) powi k < 2 powi ?e" by (rule power_int_strict_increasing) simp
    with le show False by simp
  qed
  with assms(3) show ?thesis by (simp add: float_exponent_def)
qed

lemma float_exponent_eq:
  assumes "2 powi e \<le> \<bar>x\<bar>" and "\<bar>x\<bar> < 2 powi (e + 1)" and "- 1022 \<le> e"
  shows "float_exponent x = e"
proof -
  have x: "0 < \<bar>x\<bar>" using assms(1) zero_less_power_int [of "2::real" e] by linarith
  have "(2::real) powr (of_int e) = 2 powi e"
    by (rule powr_real_of_int') simp_all
  moreover have "(2::real) powr (of_int e + 1) = 2 powi (e + 1)"
    using powr_real_of_int' [of 2 "e + 1"] by simp
  ultimately have "\<lfloor>log 2 \<bar>x\<bar>\<rfloor> = e"
    using floor_log_eq_powr_iff [OF x, of 2 e] assms(1,2) by simp
  with assms(3) show ?thesis by (simp add: float_exponent_def)
qed

lemma round64_nonneg: "0 \<le> x \<Longrightarrow> 0 \<le> round64 x"
proof -
  assume x: "0 \<le> x"
  let ?u = "(2::real) powi (float_exponent x - 52)"
  have u: "0 < ?u" by simp
  have "of_int 0 \<le> x / ?u" using x u by simp
  then have "0 \<le> round_half_even (x / ?u)" by (rule rhe_ge)
  then show ?thesis using u by (simp add: round64_def Let_def)
qed

lemma round64_err:
  assumes "\<bar>x\<bar> \<le> 2 powi k" and "- 1022 \<le> k"
  shows "\<bar>round64 x - x\<bar> \<le> 2 powi (k - 53)"
proof (cases "x = 0")
  case True
  then show ?thesis by (simp add: round64_def)
next
  case False
  let ?e = "float_exponent x"
  let ?u = "(2::real) powi (?e - 52)"
  have u: "0 < ?u" by simp
  have e: "?e \<le> k" by (rule float_exponent_le [OF False assms])
  have "round64 x - x = ?u * (of_int (round_half_even (x / ?u)) - x / ?u)"
    using False u by (simp add: round64_def Let_def algebra_simps)
  then have "\<bar>round64 x - x\<bar> = ?u * \<bar>of_int (round_half_even (x / ?u)) - x / ?u\<bar>"
    using u by (simp add: abs_mult)
  also have "\<dots> \<le> ?u * (1 / 2)"
    using rhe_err [of "x / ?u"] u by (intro mult_left_mono) simp_all
  also have "\<dots> = 2 powi (?e - 53)"
    by (simp add: power_int_diff)
  also have "\<dots> \<le> 2 powi (k - 53)"
    using e by (intro power_int_increasing) simp_all
  finally show ?thesis .
qed

lemma round64_le_pow:
  assumes "0 \<le> x" and "x \<le> 2 powi k" and "- 1022 \<le> k"
  shows "round64 x \<le> 2 powi k"
proof (cases "x = 0")
  case True
  then show ?thesis by (simp add: round64_def)
next
  case False
  let ?e = "float_exponent x"
  let ?u = "(2::real) powi (?e - 52)"
  have u: "0 < ?u" by simp
  have e: "?e \<le> k" using False assms by (intro float_exponent_le) simp_all
  define n where "n = nat (k - ?e + 52)"
  have kn: "k - ?e + 52 = int n" using e by (simp add: n_def)
  have q: "(2::real) powi k / ?u = of_int (2 ^ n)"
  proof -
    have "(2::real) powi k / ?u = 2 powi (k - (?e - 52))" by (simp add: power_int_diff)
    also have "k - (?e - 52) = int n" using kn by simp
    finally show ?thesis by simp
  qed
  have "x / ?u \<le> 2 powi k / ?u" using assms(2) u by (simp add: divide_right_mono)
  then have "x / ?u \<le> of_int (2 ^ n)" using q by simp
  then have "round_half_even (x / ?u) \<le> 2 ^ n" by (rule rhe_le)
  then have "of_int (round_half_even (x / ?u)) \<le> (of_int (2 ^ n) :: real)" by linarith
  then have "?u * of_int (round_half_even (x / ?u)) \<le> ?u * of_int (2 ^ n)"
    using u by (intro mult_left_mono) simp_all
  also have "\<dots> = 2 powi k" using q u by (simp add: field_simps)
  finally show ?thesis using False by (simp add: round64_def Let_def)
qed

lemma round64_eval:
  assumes "2 powi e \<le> \<bar>x\<bar>" and "\<bar>x\<bar> < 2 powi (e + 1)" and "- 1022 \<le> e"
    and "\<bar>x / 2 powi (e - 52) - of_int m\<bar> < 1 / 2"
  shows "round64 x = 2 powi (e - 52) * of_int m"
proof -
  have "0 < \<bar>x\<bar>" using assms(1) zero_less_power_int [of "2::real" e] by linarith
  then have x: "x \<noteq> 0" by simp
  have e: "float_exponent x = e" by (rule float_exponent_eq [OF assms(1,2,3)])
  have "round_half_even (x / 2 powi (e - 52)) = m" by (rule rhe_near [OF assms(4)])
  with x e show ?thesis by (simp add: round64_def Let_def)
qed

lemma round64_square:
  assumes "0 \<le> x" and "x \<le> 1"
  shows "\<bar>round64 (x * x) - x * x\<bar> \<le> 1 / 2 ^ 53 \<and> 0 \<le> round64 (x * x) \<and> round64 (x * x) \<le> 1"
proof -
  have 0: "0 \<le> x * x" using assms by simp
  have 1: "x * x \<le> 1" using assms by (simp add: mult_le_one)
  have "\<bar>x * x\<bar> \<le> 2 powi 0" using 0 1 by simp
  from round64_err [OF this] have "\<bar>round64 (x * x) - x * x\<bar> \<le> 1 / 2 ^ 53"
    by (simp add: power_int_minus field_simps)
  moreover have "0 \<le> round64 (x * x)" using 0 by (rule round64_nonneg)
  moreover have "round64 (x * x) \<le> 1" using round64_le_pow [of "x * x" 0] 0 1 by simp
  ultimately show ?thesis by blast
qed

lemma computed_distance_err:
  assumes "0 \<le> x" "x \<le> 1" "0 \<le> y" "y \<le> 1"
  shows "\<bar>round64 (round64 (x * x) + round64 (y * y)) - (x * x + y * y)\<bar> \<le> 1 / 2 ^ 51"
proof -
  let ?a = "round64 (x * x)" and ?b = "round64 (y * y)"
  note a = round64_square [OF assms(1,2)] and b = round64_square [OF assms(3,4)]
  have "\<bar>?a + ?b\<bar> \<le> 2 powi 1" using a b by simp
  from round64_err [OF this] have "\<bar>round64 (?a + ?b) - (?a + ?b)\<bar> \<le> 1 / 2 ^ 52"
    by (simp add: power_int_minus field_simps)
  moreover have "(1::real) / 2 ^ 53 + 1 / 2 ^ 53 + 1 / 2 ^ 52 = 1 / 2 ^ 51" by simp
  ultimately show ?thesis using a b by linarith
qed

lemma near_circle_squares:
  "round64 ((1 - 1 / 2 ^ 53) * (1 - 1 / 2 ^ 53)) = 1 - 1 / 2 ^ 52"
  "round64 (125547188 / 2 ^ 53 * (125547188 / 2 ^ 53)) = 7881048207353672 / 2 ^ 105"
proof -
  have "round64 ((1 - 1 / 2 ^ 53) * (1 - 1 / 2 ^ 53))
        = 2 powi (- 1 - 52) * of_int (2 ^ 53 - 2)"
    by (rule round64_eval) (simp_all add: power_int_minus)
  then show "round64 ((1 - 1 / 2 ^ 53) * (1 - 1 / 2 ^ 53)) = 1 - 1 / 2 ^ 52"
    by (simp add: power_int_minus)
  have "round64 (125547188 / 2 ^ 53 * (125547188 / 2 ^ 53))
        = 2 powi (- 53 - 52) * of_int 7881048207353672"
    by (rule round64_eval) (simp_all add: power_int_minus)
  then show "round64 (125547188 / 2 ^ 53 * (125547188 / 2 ^ 53)) = 7881048207353672 / 2 ^ 105"
    by (simp add: power_int_minus)
qed

lemma near_circle_sum:
  "round64 (1 - 1 / 2 ^ 52 + 7881048207353672 / 2 ^ 105) = 1"
proof -
  have "round64 (1 - 1 / 2 ^ 52 + 7881048207353672 / 2 ^ 105)
        = 2 powi (- 1 - 52) * of_int (2 ^ 53)"
    by (rule round64_eval) (simp_all add: power_int_minus)
  then show ?thesis by (simp add: power_int_minus)
qed

subsection \<open>Sampling\<close>

lemma sample_range: "0 \<le> sample x y \<and> sample x y \<le> 1"
  by (simp add: sample_def Let_def)

lemma sum_gather_bounds:
  "0 \<le> sum_list (gather_samples draws) \<and> sum_list (gather_samples draws) \<le> int (length draws)"
proof (induction draws)
  case Nil
  show ?case by (simp add: gather_samples_def)
next
  case (Cons d ds)
  obtain x y where d: "d = (x, y)" by (cases d)
  have "0 \<le> sample x y \<and> sample x y \<le> 1" by (rule sample_range)
  with Cons show ?case by (simp add: gather_samples_def d)
qed

text \<open>
  C9 (as the code has it): every call of \<open>sample\<close> returns 0 or 1, and 1 exactly when the
  float computed for \<open>x*x + y*y\<close>, with each product and the sum rounded, is below 1. For
  draws between 0 and 1 the computed value is within \<open>2 ^ -51\<close> of the exact one, so the
  result is that of the exact test \<open>x*x + y*y < 1\<close> for every point farther than that
  from the circle. So for one sample or more the estimate \<open>4*sum/n\<close> is returned and lies
  between 0 and 4.
\<close>

theorem sample_estimate_bounds:
  assumes "draws \<noteq> []"
  shows "(sample x y = 0 \<or> sample x y = 1)
    \<and> (sample x y = 1) = (round64 (round64 (x * x) + round64 (y * y)) < 1)
    \<and> (0 \<le> x \<and> x \<le> 1 \<and> 0 \<le> y \<and> y \<le> 1 \<and> x * x + y * y < 1 - 1 / 2 ^ 51
         \<longrightarrow> sample x y = 1)
    \<and> (0 \<le> x \<and> x \<le> 1 \<and> 0 \<le> y \<and> y \<le> 1 \<and> 1 + 1 / 2 ^ 51 \<le> x * x + y * y
         \<longrightarrow> sample x y = 0)
    \<and> (\<exists>v. pi_estimate (gather_samples draws) = Inr v \<and> 0 \<le> v \<and> v \<le> 4)"
proof -
  let ?s = "sum_list (gather_samples draws)"
  let ?n = "length draws"
  let ?q = "real_of_int (4 * ?s) / real ?n"
  have n: "0 < ?n" using assms by simp
  have len: "length (gather_samples draws) = ?n" by (simp add: gather_samples_def)
  have b: "0 \<le> ?s \<and> ?s \<le> int ?n" by (rule sum_gather_bounds)
  have lo: "0 \<le> ?q" using b by simp
  have "real_of_int (4 * ?s) \<le> 4 * real ?n" using b by linarith
  then have hi: "?q \<le> 4" using n by (simp add: divide_le_eq)
  have rlo: "0 \<le> round64 ?q" using lo by (rule round64_nonneg)
  have rhi: "round64 ?q \<le> 4" using round64_le_pow [of ?q 2] lo hi by simp
  have est: "pi_estimate (gather_samples draws) = Inr (round64 ?q)"
    using n by (simp add: pi_estimate_def len)
  have s: "(sample x y = 0 \<or> sample x y = 1)
      \<and> (sample x y = 1) = (round64 (round64 (x * x) + round64 (y * y)) < 1)"
    by (simp add: sample_def Let_def)
  have inside: "sample x y = 1"
    if "0 \<le> x" "x \<le> 1" "0 \<le> y" "y \<le> 1" "x * x + y * y < 1 - 1 / 2 ^ 51"
  proof -
    from computed_distance_err [OF that(1-4)] that(5)
    have "round64 (round64 (x * x) + round64 (y * y)) < 1" by linarith
    then show ?thesis by (simp add: sample_def Let_def)
  qed
  have outside: "sample x y = 0"
    if "0 \<le> x" "x \<le> 1" "0 \<le> y" "y \<le> 1" "1 + 1 / 2 ^ 51 \<le> x * x + y * y"
  proof -
    from computed_distance_err [OF that(1-4)] that(5)
    have "\<not> round64 (round64 (x * x) + round64 (y * y)) < 1" by linarith
    then show ?thesis by (simp add: sample_def Let_def)
  qed
  from s inside outside est rlo rhi show ?thesis by blast
qed

theorem sample_estimate_bounds_witness:
  "[(1 / 2, 1 / 2)] \<noteq> ([] :: (real \<times> real) list)
   \<and> (1 / 2) * (1 / 2) + (1 / 2) * (1 / 2) < (1::real) - 1 / 2 ^ 51
   \<and> sample (1 / 2) (1 / 2) = 1
   \<and> (\<exists>v. pi_estimate (gather_samples [(1 / 2, 1 / 2)]) = Inr v \<and> 0 \<le> v \<and> v \<le> 4)"
proof -
  have h: "[(1 / 2, 1 / 2)] \<noteq> ([] :: (real \<times> real) list)" by simp
  have b: "(1 / 2) * (1 / 2) + (1 / 2) * (1 / 2) < (1::real) - 1 / 2 ^ 51" by simp
  have r: "(0::real) \<le> 1 / 2 \<and> (1::real) / 2 \<le> 1" by simp
  from sample_estimate_bounds [OF h, of "1 / 2" "1 / 2"] b r
  have "sample (1 / 2) (1 / 2) = 1
      \<and> (\<exists>v. pi_estimate (gather_samples [(1 / 2, 1 / 2)]) = Inr v \<and> 0 \<le> v \<and> v \<le> 4)"
    by blast
  with h b show ?thesis by blast
qed

text \<open>
  C9, a counterexample to the claim as stated: at the draws \<open>x = 1 - 2 ^ -53\<close> and
  \<open>y = 125547188 * 2 ^ -53\<close> the point is inside the circle, the products round to
  \<open>1 - 2 ^ -52\<close> and to \<open>y*y\<close> itself, their sum rounds to 1, and \<open>sample\<close> returns 0.
\<close>

theorem sample_differs_from_exact_test:
  "sample (1 - 1 / 2 ^ 53) (125547188 / 2 ^ 53) = 0
   \<and> (1 - 1 / 2 ^ 53) * (1 - 1 / 2 ^ 53) + 125547188 / 2 ^ 53 * (125547188 / 2 ^ 53) < (1::real)"
proof -
  have "sample (1 - 1 / 2 ^ 53) (125547188 / 2 ^ 53) = 0"
    unfolding sample_def near_circle_squares near_circle_sum by simp
  moreover have "(1 - 1 / 2 ^ 53) * (1 - 1 / 2 ^ 53)
      + 125547188 / 2 ^ 53 * (125547188 / 2 ^ 53) < (1::real)" by simp
  ultimately show ?thesis by blast
qed

text \<open>
  C10: \<open>threshold\<close> is defined on every price and returns 0, 1 or 2 only: 0 exactly
  below 1200, 2 exactly above 11000, 1 in between; the two bounds 1200 and 11000 are
  themselves in class 1.
\<close>

theorem threshold_classes:
  "(threshold p = 0 \<or> threshold p = 1 \<or> threshold p = 2)
   \<and> (threshold p = 0) = (p < 1200)
   \<and> (threshold p = 2) = (p > 11000)
   \<and> (threshold p = 1) = (1200 \<le> p \<and> p \<le> 11000)
   \<and> threshold 1200 = 1 \<and> threshold 11000 = 1"
  by (simp add: threshold_def THRESHOLDS_def)

lemma borrow_all_append:
  "borrow_all (xs @ ys) b =
     (fst (borrow_all xs b) @ fst (borrow_all ys (snd (borrow_all xs b))),
      snd (borrow_all ys (snd (borrow_all xs b))))"
  by (induction xs arbitrary: b) (simp_all add: case_prod_beta)

lemma borrow_all_length: "length (fst (borrow_all xs b)) = length xs"
  by (induction xs arbitrary: b) (simp_all add: case_prod_beta)

lemma borrow_nonneg: "0 \<le> funds b \<Longrightarrow> 0 \<le> funds (snd (borrow a b))"
  by (simp add: borrow_def Let_def)

lemma borrow_all_nonneg:
  "0 \<le> funds b \<Longrightarrow> 0 \<le> funds (snd (borrow_all xs b))"
  by (induction xs arbitrary: b) (simp_all add: case_prod_beta borrow_nonneg)

text \<open>
  C8: a bank opened with funds that are not negative serves any sequence of calls of
  \<open>borrow\<close> whose amounts are not negative. Each call of the sequence returns the
  minimum of the amount asked and the funds at that moment, takes exactly that loan off
  the funds, and the funds are never negative, before or after any call.
\<close>

theorem borrow_min_nonneg:
  assumes "0 \<le> funds b" and "\<forall>a\<in>set amounts. 0 \<le> a" and "amounts = pre @ amount # post"
  shows "let before = snd (borrow_all pre b);
             loan = fst (borrow_all amounts b) ! length pre;
             after = snd (borrow_all (pre @ [amount]) b)
         in borrow amount before = (loan, after)
            \<and> loan = min amount (funds before)
            \<and> funds after = funds before - loan
            \<and> 0 \<le> loan \<and> 0 \<le> funds before \<and> 0 \<le> funds after
            \<and> 0 \<le> funds (snd (borrow_all amounts b))"
proof -
  let ?b1 = "snd (borrow_all pre b)"
  let ?l1 = "fst (borrow_all pre b)"
  have len: "length ?l1 = length pre" by (rule borrow_all_length)
  have b1: "0 \<le> funds ?b1" by (rule borrow_all_nonneg [OF assms(1)])
  have a: "0 \<le> amount" using assms(2,3) by simp
  have all: "0 \<le> funds (snd (borrow_all amounts b))" by (rule borrow_all_nonneg [OF assms(1)])
  have loan: "fst (borrow_all amounts b) ! length pre = min amount (funds ?b1)"
    using nth_append_length [of ?l1] len
    by (simp add: assms(3) borrow_all_append case_prod_beta borrow_def Let_def)
  have after: "snd (borrow_all (pre @ [amount]) b) = snd (borrow amount ?b1)"
    by (simp add: borrow_all_append case_prod_beta)
  have one: "borrow amount ?b1 = (min amount (funds ?b1), ?b1\<lparr>funds := funds ?b1 - min amount (funds ?b1)\<rparr>)"
    by (simp add: borrow_def Let_def)
  show ?thesis
    unfolding Let_def loan after one using b1 a all by simp
qed

theorem borrow_min_nonneg_witness:
  "0 \<le> funds (Bank 1000) \<and> list_all (\<lambda>a. 0 \<le> a) [600, 500, 500 :: int]
   \<and> borrow 500 (snd (borrow_all [600] (Bank 1000)))
       = (fst (borrow_all [600, 500, 500] (Bank 1000)) ! 1, snd (borrow_all [600, 500] (Bank 1000)))
   \<and> 0 \<le> funds (snd (borrow_all [600, 500, 500] (Bank 1000)))"
proof -
  have h1: "0 \<le> funds (Bank 1000)" by (simp add: Bank_def)
  have h2: "\<forall>a\<in>set [600, 500, 500 :: int]. 0 \<le> a" by simp
  have h3: "[600, 500, 500 :: int] = [600] @ 500 # [500]" by simp
  have t: "borrow 500 (snd (borrow_all [600] (Bank 1000)))
       = (fst (borrow_all [600, 500, 500] (Bank 1000)) ! length [600::int],
          snd (borrow_all ([600] @ [500]) (Bank 1000)))
     \<and> 0 \<le> funds (snd (borrow_all [600, 500, 500] (Bank 1000)))"
    using borrow_min_nonneg [OF h1 h2 h3] unfolding Let_def by blast
  have l: "length [600::int] = 1" by simp
  have a: "[600] @ [500] = [600, 500 :: int]" by simp
  show ?thesis using h1 t unfolding l a by simp
qed

section \<open>The loop: one iteration, invariants, termination\<close>

lemma next_completed_split:
  assumes "ps \<noteq> []" and "next_completed c ps = (a, rest)"
  shows "\<exists>xs ys. ps = xs @ a # ys \<and> rest = xs @ ys"
proof -
  let ?i = "c mod length ps"
  have i: "?i < length ps" using assms(1) by simp
  have a: "a = ps ! ?i" and rest: "rest = take ?i ps @ drop (Suc ?i) ps"
    using assms(2) by (simp_all add: next_completed_def Let_def)
  have "ps = take ?i ps @ a # drop (Suc ?i) ps"
    unfolding a by (rule id_take_nth_drop [OF i])
  with rest show ?thesis by blast
qed

lemma loop_body_fields:
  "pending (loop_body cont r st) = (if cont r then pending st @ [r] else pending st)"
  "submitted (loop_body cont r st) = (if cont r then submitted st @ [r] else submitted st)"
  "printed (loop_body cont r st) =
     (if cont r then printed st @ [Result r] else printed st @ [Result r, Walk_done (fst r)])"
  by (simp_all add: loop_body_def Let_def)

text \<open>
  The invariant rule of the loop: a property of the state that holds at the start and is
  kept by every iteration whose step returns holds when the loop ends or waits; when an
  exception leaves the loop, it held in the state in which the failing future was taken.
\<close>

lemma loop_invariant:
  assumes init: "I st"
    and pres: "\<And>st xs a ys d r. I st \<Longrightarrow> pending st = xs @ a # ys \<Longrightarrow> stepf d a = Inr r
                 \<Longrightarrow> I (loop_body cont r (st\<lparr>pending := xs @ ys\<rparr>))"
    and res: "as_completed_loop stepf cont sched st = (en, st')"
  shows "(en = Exhausted \<longrightarrow> I st' \<and> pending st' = [])
       \<and> (en = Waiting \<longrightarrow> I st' \<and> pending st' \<noteq> [])
       \<and> (\<forall>e. en = Raised e \<longrightarrow>
             (\<exists>st0 xs a ys d. I st0 \<and> pending st0 = xs @ a # ys \<and> stepf d a = Inl e
                \<and> st' = st0\<lparr>pending := xs @ ys\<rparr>))"
  using init res
proof (induction sched arbitrary: st)
  case Nil
  then show ?case by (auto split: if_splits)
next
  case (Cons o1 sched)
  obtain c d where o1: "o1 = (c, d)" by (cases o1)
  show ?case
  proof (cases "pending st = []")
    case True
    with Cons.prems show ?thesis by (simp add: o1)
  next
    case False
    obtain a rest where nc: "next_completed c (pending st) = (a, rest)"
      by (cases "next_completed c (pending st)")
    from next_completed_split [OF False nc]
    obtain xs ys where sp: "pending st = xs @ a # ys" "rest = xs @ ys" by blast
    show ?thesis
    proof (cases "stepf d a")
      case (Inl e)
      with Cons.prems False nc have "en = Raised e" "st' = st\<lparr>pending := rest\<rparr>"
        by (simp_all add: o1)
      with Cons.prems(1) sp Inl show ?thesis by blast
    next
      case (Inr r)
      let ?st1 = "loop_body cont r (st\<lparr>pending := xs @ ys\<rparr>)"
      have I1: "I ?st1" by (rule pres [OF Cons.prems(1) sp(1) Inr])
      have "as_completed_loop stepf cont sched ?st1 = (en, st')"
        using Cons.prems(2) False nc Inr sp(2) by (simp add: o1)
      from Cons.IH [OF I1 this] show ?thesis .
    qed
  qed
qed

lemma loop_invariant_ok:
  assumes init: "I st"
    and pres: "\<And>st xs a ys d r. I st \<Longrightarrow> pending st = xs @ a # ys \<Longrightarrow> stepf d a = Inr r
                 \<Longrightarrow> I (loop_body cont r (st\<lparr>pending := xs @ ys\<rparr>))"
    and res: "as_completed_loop stepf cont sched st = (en, st')"
    and nr: "\<forall>e. en \<noteq> Raised e"
  shows "I st'"
proof -
  have "(en = Exhausted \<longrightarrow> I st' \<and> pending st' = [])
       \<and> (en = Waiting \<longrightarrow> I st' \<and> pending st' \<noteq> [])"
    using loop_invariant [where I = I and stepf = stepf and cont = cont, OF init _ res] pres
    by presburger
  with nr show ?thesis by (cases en) simp_all
qed

lemma loop_append:
  "as_completed_loop stepf cont (p @ q) st =
     (case as_completed_loop stepf cont p st of
        (Waiting, st') \<Rightarrow> as_completed_loop stepf cont q st'
      | res \<Rightarrow> res)"
proof (induction p arbitrary: st)
  case Nil
  show ?case by (cases q) (auto split: prod.splits)
next
  case (Cons o1 p)
  obtain c d where o1: "o1 = (c, d)" by (cases o1)
  show ?case
    by (simp add: o1 Cons.IH split: prod.splits sum.splits)
qed

lemma loop_Exhausted_pending:
  "as_completed_loop stepf cont sched st = (Exhausted, st') \<Longrightarrow> pending st' = []"
  using loop_invariant [where I = "\<lambda>_. True" and stepf = stepf and cont = cont and st = st
      and sched = sched and en = Exhausted and st' = st']
  by simp

lemma loop_Waiting_pending:
  "as_completed_loop stepf cont sched st = (Waiting, st') \<Longrightarrow> pending st' \<noteq> []"
  using loop_invariant [where I = "\<lambda>_. True" and stepf = stepf and cont = cont and st = st
      and sched = sched and en = Waiting and st' = st']
  by simp

subsection \<open>Facts about the printed lines and the submissions\<close>

lemma finals_snoc_Result: "finals (ls @ [Result r]) = finals ls"
  by (induction ls rule: finals.induct) simp_all

lemma finals_snoc_done: "finals (ls @ [Result r, Walk_done i]) = finals ls @ [r]"
  by (induction ls rule: finals.induct) simp_all

lemma results_append: "results (xs @ ys) = results xs @ results ys"
  by (induction xs rule: results.induct) simp_all

lemma items_of_append: "items_of i (xs @ ys) = items_of i xs @ items_of i ys"
  by (simp add: items_of_def)

lemma lines_of_append: "lines_of i (xs @ ys) = lines_of i xs @ lines_of i ys"
  by (simp add: lines_of_def)

lemma items_of_Cons: "items_of i (a # xs) = (if fst a = i then a # items_of i xs else items_of i xs)"
  by (simp add: items_of_def)

lemma items_of_Nil: "items_of i [] = []"
  by (simp add: items_of_def)

lemma lines_of_simps:
  "lines_of i [] = []"
  "lines_of i (Result r # ls) = (if fst r = i then Result r # lines_of i ls else lines_of i ls)"
  "lines_of i (Walk_done j # ls) = (if j = i then Walk_done j # lines_of i ls else lines_of i ls)"
  by (simp_all add: lines_of_def)

lemma items_of_none: "i \<notin> fst ` set ps \<Longrightarrow> items_of i ps = []"
  unfolding items_of_def filter_empty_conv by (metis imageI)

lemma items_of_distinct:
  "distinct (map fst ps) \<Longrightarrow> s \<in> set ps \<Longrightarrow> items_of (fst s) ps = [s]"
proof (induction ps)
  case Nil
  then show ?case by simp
next
  case (Cons p ps)
  have none: "fst s \<notin> fst ` set ps \<Longrightarrow> items_of (fst s) ps = []"
    by (rule items_of_none)
  show ?case
  proof (cases "s = p")
    case True
    with Cons.prems none show ?thesis by (simp add: items_of_Cons)
  next
    case False
    with Cons.prems have "s \<in> set ps" "fst p \<noteq> fst s" by (auto simp: image_iff)
    with Cons show ?thesis by (simp add: items_of_Cons)
  qed
qed

lemma items_of_le_one: "distinct (map fst ps) \<Longrightarrow> length (items_of i ps) \<le> 1"
proof (induction ps)
  case Nil
  show ?case by (simp add: items_of_Nil)
next
  case (Cons p ps)
  then have "fst p \<notin> fst ` set ps" and IH: "length (items_of i ps) \<le> 1" by simp_all
  then have "items_of (fst p) ps = []" by (simp add: items_of_none)
  with IH show ?case by (cases "fst p = i") (simp_all add: items_of_Cons)
qed

lemma Walk_done_lines_of:
  "Walk_done i \<in> set ls \<longleftrightarrow> Walk_done i \<in> set (lines_of i ls)"
  by (auto simp: lines_of_def)

lemma Result_lines_of: "Result r \<in> set ls \<longleftrightarrow> Result r \<in> set (lines_of (fst r) ls)"
  by (auto simp: lines_of_def)

subsection \<open>The record of one task\<close>

lemma chain_snoc:
  "chain stepf s rs \<Longrightarrow> stepf d (last (s # rs)) = Inr r \<Longrightarrow> chain stepf s (rs @ [r])"
proof (induction rs arbitrary: s)
  case Nil
  then show ?case by auto
next
  case (Cons x rs)
  then show ?case by auto
qed

text \<open>One iteration keeps the record of every task.\<close>

lemma task_step:
  assumes id: "preserves_id stepf"
    and inv: "(\<exists>rs. task_alive stepf cont st s rs) \<or> (\<exists>rs r. task_done stepf cont st s rs r)"
    and pend: "pending st = xs @ a # ys"
    and res: "stepf d a = Inr r"
  shows "(\<exists>rs. task_alive stepf cont (loop_body cont r (st\<lparr>pending := xs @ ys\<rparr>)) s rs)
       \<or> (\<exists>rs r'. task_done stepf cont (loop_body cont r (st\<lparr>pending := xs @ ys\<rparr>)) s rs r')"
proof -
  let ?st1 = "loop_body cont r (st\<lparr>pending := xs @ ys\<rparr>)"
  have fr: "fst r = fst a" using id res unfolding preserves_id_def by blast
  show ?thesis
  proof (cases "fst a = fst s")
    case False
    then have "task_alive stepf cont ?st1 s rs = task_alive stepf cont st s rs"
      and "task_done stepf cont ?st1 s rs r' = task_done stepf cont st s rs r'" for rs r'
      using fr
      by (simp_all add: task_alive_def task_done_def loop_body_fields pend
          items_of_append items_of_Cons items_of_Nil lines_of_append lines_of_simps)
    with inv show ?thesis by simp
  next
    case True
    have "items_of (fst s) (pending st) \<noteq> []"
      by (simp add: pend items_of_append items_of_Cons True)
    with inv obtain rs where al: "task_alive stepf cont st s rs"
      by (auto simp: task_done_def)
    from al have one: "items_of (fst s) xs @ a # items_of (fst s) ys = [last (s # rs)]"
      by (simp add: task_alive_def pend items_of_append items_of_Cons True)
    then have xs: "items_of (fst s) xs = []" and ys: "items_of (fst s) ys = []"
      and a: "a = last (s # rs)"
      by (simp_all add: append_eq_Cons_conv Cons_eq_append_conv)
    have ch: "chain stepf s (rs @ [r])"
      using al res a by (auto simp: task_alive_def intro: chain_snoc)
    show ?thesis
    proof (cases "cont r")
      case True
      have "task_alive stepf cont ?st1 s (rs @ [r])"
        using al ch True fr \<open>fst a = fst s\<close> xs ys
        by (simp add: task_alive_def loop_body_fields items_of_append items_of_Cons
            items_of_Nil lines_of_append lines_of_simps)
      then show ?thesis by blast
    next
      case False
      have "task_done stepf cont ?st1 s rs r"
        using al ch False fr \<open>fst a = fst s\<close> xs ys
        by (simp add: task_alive_def task_done_def loop_body_fields items_of_append
            items_of_Cons items_of_Nil lines_of_append lines_of_simps)
      then show ?thesis by blast
    qed
  qed
qed

lemma run_task_record:
  assumes id: "preserves_id stepf" and dist: "distinct (map fst seed_items)"
    and res: "run stepf cont seed_items sched = (en, st')"
    and s: "s \<in> set seed_items"
  shows "(\<exists>rs. lines_of (fst s) (printed st') = map Result rs \<and> list_all cont rs
              \<and> chain stepf s rs \<and> items_of (fst s) (submitted st') = s # rs
              \<and> (en = Exhausted \<longrightarrow> items_of (fst s) (pending st') \<noteq> []))
       \<or> (\<exists>rs r. task_done stepf cont st' s rs r)"
proof -
  let ?I = "\<lambda>st. (\<exists>rs. task_alive stepf cont st s rs) \<or> (\<exists>rs r. task_done stepf cont st s rs r)"
  let ?st0 = "\<lparr>pending = seed_items, submitted = seed_items, printed = []\<rparr>"
  have "task_alive stepf cont ?st0 s []"
    using items_of_distinct [OF dist s] by (simp add: task_alive_def lines_of_simps)
  then have init: "?I ?st0" by blast
  have li: "(en = Exhausted \<longrightarrow> ?I st' \<and> pending st' = [])
       \<and> (en = Waiting \<longrightarrow> ?I st' \<and> pending st' \<noteq> [])
       \<and> (\<forall>e. en = Raised e \<longrightarrow>
             (\<exists>st0 xs a ys d. ?I st0 \<and> pending st0 = xs @ a # ys \<and> stepf d a = Inl e
                \<and> st' = st0\<lparr>pending := xs @ ys\<rparr>))"
  proof (rule loop_invariant [where I = ?I and stepf = stepf and cont = cont,
          OF init _ res [unfolded run_def]])
    fix st :: loop_state and xs a ys d r
    assume "?I st" "pending st = xs @ a # ys" "stepf d a = Inr r"
    then show "?I (loop_body cont r (st\<lparr>pending := xs @ ys\<rparr>))" by (rule task_step [OF id])
  qed
  have weaken: ?thesis if "?I st'"
    using that by (auto simp: task_alive_def)
  show ?thesis
  proof (cases en)
    case Exhausted
    with li weaken show ?thesis by blast
  next
    case Waiting
    with li weaken show ?thesis by blast
  next
    case (Raised e)
    with li obtain st0 xs a ys where I0: "?I st0" and p: "pending st0 = xs @ a # ys"
      and st': "st' = st0\<lparr>pending := xs @ ys\<rparr>" by blast
    from I0 show ?thesis
    proof
      assume "\<exists>rs. task_alive stepf cont st0 s rs"
      then show ?thesis using Raised by (auto simp: task_alive_def st')
    next
      assume "\<exists>rs r. task_done stepf cont st0 s rs r"
      then obtain rs r where d: "task_done stepf cont st0 s rs r" by blast
      then have "items_of (fst s) (xs @ a # ys) = []" by (simp add: task_done_def p)
      then have "items_of (fst s) (xs @ ys) = []"
        by (simp add: items_of_append items_of_Cons split: if_splits)
      with d have "task_done stepf cont st' s rs r" by (simp add: task_done_def st')
      then show ?thesis by blast
    qed
  qed
qed

subsection \<open>Counting submissions, results and terminal results\<close>

lemma run_counts:
  assumes id: "preserves_id stepf" and dist: "distinct (map fst seed_items)"
    and res: "run stepf cont seed_items sched = (en, st')"
  shows "distinct (map fst (pending st'))
       \<and> (\<forall>i. length (items_of i (submitted st'))
               \<le> length (items_of i (results (printed st'))) + 1)"
proof -
  let ?I = "\<lambda>st. distinct (map fst (pending st))
      \<and> (\<forall>i. length (items_of i (submitted st))
             = length (items_of i (results (printed st))) + length (items_of i (pending st)))"
  let ?st0 = "\<lparr>pending = seed_items, submitted = seed_items, printed = []\<rparr>"
  have init: "?I ?st0" using dist by (simp add: items_of_Nil)
  have pres: "?I (loop_body cont r (st\<lparr>pending := xs @ ys\<rparr>))"
    if I: "?I st" and p: "pending st = xs @ a # ys" and r: "stepf d a = Inr r" for st xs a ys and d :: 'a and r
  proof -
    have fr: "fst r = fst a" using id r unfolding preserves_id_def by blast
    have d: "distinct (map fst (xs @ a # ys))" using I p by simp
    have c: "length (items_of i (submitted st))
             = length (items_of i (results (printed st))) + length (items_of i (xs @ a # ys))" for i
      using I p by simp
    show ?thesis
      using d c fr
      by (simp add: loop_body_fields items_of_append items_of_Cons items_of_Nil results_append)
  qed
  have small: "length (items_of i ps) \<le> 1" if "distinct (map fst ps)" for i ps
    by (rule items_of_le_one [OF that])
  have li: "(en = Exhausted \<longrightarrow> ?I st' \<and> pending st' = [])
       \<and> (en = Waiting \<longrightarrow> ?I st' \<and> pending st' \<noteq> [])
       \<and> (\<forall>e. en = Raised e \<longrightarrow>
             (\<exists>st0 xs a ys d. ?I st0 \<and> pending st0 = xs @ a # ys \<and> stepf d a = Inl e
                \<and> st' = st0\<lparr>pending := xs @ ys\<rparr>))"
  proof (rule loop_invariant [where I = ?I and stepf = stepf and cont = cont,
          OF init _ res [unfolded run_def]])
    fix st :: loop_state and xs a ys d r
    assume "?I st" "pending st = xs @ a # ys" "stepf d a = Inr r"
    then show "?I (loop_body cont r (st\<lparr>pending := xs @ ys\<rparr>))" by (rule pres)
  qed
  have E: "en = Exhausted \<longrightarrow> ?I st'" using li by simp
  have W: "en = Waiting \<longrightarrow> ?I st'" using li by simp
  have R: "\<forall>e. en = Raised e \<longrightarrow>
             (\<exists>st0 xs a ys d. ?I st0 \<and> pending st0 = xs @ a # ys \<and> stepf d a = Inl e
                \<and> st' = st0\<lparr>pending := xs @ ys\<rparr>)"
    using li by (elim conjE)
  have fin: "?thesis" if "?I st'"
  proof -
    have "length (items_of i (submitted st')) \<le> length (items_of i (results (printed st'))) + 1" for i
      using that small [of "pending st'" i] by simp
    with that show ?thesis by blast
  qed
  show ?thesis
  proof (cases en)
    case Exhausted
    with E fin show ?thesis by blast
  next
    case Waiting
    with W fin show ?thesis by blast
  next
    case (Raised e)
    with R obtain st0 xs a ys where I0: "?I st0" and p: "pending st0 = xs @ a # ys"
      and st': "st' = st0\<lparr>pending := xs @ ys\<rparr>" by blast
    have d: "distinct (map fst (xs @ ys))" using I0 p by simp
    have "length (items_of i (submitted st')) \<le> length (items_of i (results (printed st'))) + 1" for i
    proof -
      have "length (items_of i (submitted st0))
            = length (items_of i (results (printed st0))) + length (items_of i (xs @ a # ys))"
        using I0 p by simp
      moreover have "length (items_of i (xs @ a # ys)) \<le> 1"
        using small [of "xs @ a # ys" i] I0 p by simp
      ultimately show ?thesis by (simp add: st')
    qed
    with d show ?thesis by (simp add: st')
  qed
qed

lemma run_finals:
  assumes id: "preserves_id stepf"
    and res: "run stepf cont seed_items sched = (en, st')"
    and nr: "\<forall>e. en \<noteq> Raised e"
  shows "mset (map fst (finals (printed st'))) + mset (map fst (pending st')) = mset (map fst seed_items)
       \<and> (\<forall>r\<in>set (finals (printed st')). \<not> cont r \<and> Result r \<in> set (printed st'))"
proof -
  let ?I = "\<lambda>st. mset (map fst (finals (printed st))) + mset (map fst (pending st))
                   = mset (map fst seed_items)
      \<and> (\<forall>r\<in>set (finals (printed st)). \<not> cont r \<and> Result r \<in> set (printed st))"
  let ?st0 = "\<lparr>pending = seed_items, submitted = seed_items, printed = []\<rparr>"
  have init: "?I ?st0" by simp
  have pres: "?I (loop_body cont r (st\<lparr>pending := xs @ ys\<rparr>))"
    if I: "?I st" and p: "pending st = xs @ a # ys" and r: "stepf d a = Inr r" for st xs a ys d r
  proof -
    have fr: "fst r = fst a" using id r unfolding preserves_id_def by blast
    have m: "mset (map fst (finals (printed st))) + mset (map fst (xs @ a # ys))
             = mset (map fst seed_items)" using I p by simp
    have f: "\<forall>r\<in>set (finals (printed st)). \<not> cont r \<and> Result r \<in> set (printed st)"
      using I by blast
    show ?thesis
    proof (cases "cont r")
      case True
      with m f fr show ?thesis
        by (simp add: loop_body_fields finals_snoc_Result)
    next
      case False
      from False m f fr show ?thesis
        by (simp add: loop_body_fields finals_snoc_done)
    qed
  qed
  show ?thesis
  proof (rule loop_invariant_ok [where I = ?I and stepf = stepf and cont = cont,
          OF init _ res [unfolded run_def] nr])
    fix st :: loop_state and xs a ys d r
    assume "?I st" "pending st = xs @ a # ys" "stepf d a = Inr r"
    then show "?I (loop_body cont r (st\<lparr>pending := xs @ ys\<rparr>))" by (rule pres)
  qed
qed

lemma run_pending_not_done:
  assumes id: "preserves_id stepf" and dist: "distinct (map fst seed_items)"
    and res: "run stepf cont seed_items sched = (en, st')"
    and nr: "\<forall>e. en \<noteq> Raised e"
  shows "distinct (map fst (pending st'))
       \<and> (\<forall>b\<in>set (pending st'). Walk_done (fst b) \<notin> set (printed st'))"
proof -
  let ?I = "\<lambda>st. distinct (map fst (pending st))
       \<and> (\<forall>b\<in>set (pending st). Walk_done (fst b) \<notin> set (printed st))"
  let ?st0 = "\<lparr>pending = seed_items, submitted = seed_items, printed = []\<rparr>"
  have init: "?I ?st0" using dist by simp
  show ?thesis
  proof (rule loop_invariant_ok [where I = ?I and stepf = stepf and cont = cont,
          OF init _ res [unfolded run_def] nr])
    fix st :: loop_state and xs a ys and d :: 'a and r
    assume I: "?I st" and p: "pending st = xs @ a # ys" and r: "stepf d a = Inr r"
    have fr: "fst r = fst a" using id r unfolding preserves_id_def by blast
    have d: "distinct (map fst (xs @ a # ys))" using I p by simp
    have w: "\<forall>b\<in>set (xs @ a # ys). Walk_done (fst b) \<notin> set (printed st)" using I p by simp
    show "?I (loop_body cont r (st\<lparr>pending := xs @ ys\<rparr>))"
      using d w fr by (auto simp: loop_body_fields image_iff)
  qed
qed

lemma run_first_results:
  assumes stop: "\<forall>r. \<not> cont r"
    and res: "run stepf cont seed_items sched = (en, st')"
    and nr: "\<forall>e. en \<noteq> Raised e"
  shows "submitted st' = seed_items
       \<and> (\<exists>rs ss. printed st' = concat (map (\<lambda>r. [Result r, Walk_done (fst r)]) rs)
             \<and> finals (printed st') = rs
             \<and> mset ss + mset (pending st') = mset seed_items
             \<and> list_all2 (\<lambda>s r. \<exists>d. stepf d s = Inr r) ss rs)"
proof -
  let ?I = "\<lambda>st. submitted st = seed_items
       \<and> (\<exists>rs ss. printed st = concat (map (\<lambda>r. [Result r, Walk_done (fst r)]) rs)
             \<and> finals (printed st) = rs
             \<and> mset ss + mset (pending st) = mset seed_items
             \<and> list_all2 (\<lambda>s r. \<exists>d. stepf d s = Inr r) ss rs)"
  let ?st0 = "\<lparr>pending = seed_items, submitted = seed_items, printed = []\<rparr>"
  have "printed ?st0 = concat (map (\<lambda>r. [Result r, Walk_done (fst r)]) [])
      \<and> finals (printed ?st0) = []
      \<and> mset [] + mset (pending ?st0) = mset seed_items
      \<and> list_all2 (\<lambda>s r. \<exists>d. stepf d s = Inr r) [] []" by simp
  then have init: "?I ?st0" by simp
  show ?thesis
  proof (rule loop_invariant_ok [where I = ?I and stepf = stepf and cont = cont,
          OF init _ res [unfolded run_def] nr])
    fix st :: loop_state and xs a ys d r
    assume I: "?I st" and p: "pending st = xs @ a # ys" and r: "stepf d a = Inr r"
    from I obtain rs ss where sub: "submitted st = seed_items"
      and pr: "printed st = concat (map (\<lambda>r. [Result r, Walk_done (fst r)]) rs)"
      and fi: "finals (printed st) = rs"
      and ms: "mset ss + mset (pending st) = mset seed_items"
      and la: "list_all2 (\<lambda>s r. \<exists>d. stepf d s = Inr r) ss rs" by blast
    let ?st1 = "loop_body cont r (st\<lparr>pending := xs @ ys\<rparr>)"
    have stop: "\<not> cont r" using stop by blast
    have 1: "submitted ?st1 = seed_items" using sub stop by (simp add: loop_body_fields)
    have 2: "printed ?st1 = concat (map (\<lambda>r. [Result r, Walk_done (fst r)]) (rs @ [r]))"
      using pr stop by (simp add: loop_body_fields)
    have 3: "finals (printed ?st1) = rs @ [r]"
      using fi stop by (simp add: loop_body_fields finals_snoc_done)
    have 4: "mset (ss @ [a]) + mset (pending ?st1) = mset seed_items"
      using ms p stop by (simp add: loop_body_fields)
    have 5: "list_all2 (\<lambda>s r. \<exists>d. stepf d s = Inr r) (ss @ [a]) (rs @ [r])"
      using la r by (auto intro!: list_all2_appendI)
    from 1 2 3 4 5 show "?I ?st1" by blast
  qed
qed

text \<open>
  Every terminal result belongs to one seed item of its own: it ends a chain of steps
  from that seed, the test held on every result before it and fails on it. Every
  outstanding item is likewise reached from a seed item of its own.
\<close>

lemma run_matching:
  assumes id: "preserves_id stepf"
    and res: "run stepf cont seed_items sched = (en, st')"
    and nr: "\<forall>e. en \<noteq> Raised e"
  shows "\<exists>ss qs. mset ss + mset qs = mset seed_items
      \<and> list_all2 (\<lambda>s r. fst r = fst s \<and> \<not> cont r
            \<and> (\<exists>rs. list_all cont rs \<and> chain stepf s (rs @ [r]))) ss (finals (printed st'))
      \<and> list_all2 (\<lambda>q a. fst a = fst q
            \<and> (\<exists>rs. list_all cont rs \<and> chain stepf q rs \<and> a = last (q # rs))) qs (pending st')"
proof -
  define T where "T = (\<lambda>s r. fst r = fst s \<and> \<not> cont r
      \<and> (\<exists>rs. list_all cont rs \<and> chain stepf s (rs @ [r])))"
  define R where "R = (\<lambda>q a. fst a = fst q
      \<and> (\<exists>rs. list_all cont rs \<and> chain stepf q rs \<and> a = last (q # rs)))"
  let ?I = "\<lambda>st. \<exists>ss qs. mset ss + mset qs = mset seed_items
      \<and> list_all2 T ss (finals (printed st)) \<and> list_all2 R qs (pending st)"
  let ?st0 = "\<lparr>pending = seed_items, submitted = seed_items, printed = []\<rparr>"
  have "R q q" for q
  proof -
    have "list_all cont [] \<and> chain stepf q [] \<and> q = last (q # [])" by simp
    then show ?thesis unfolding R_def by blast
  qed
  then have "list_all2 R seed_items seed_items" by (simp add: list_all2_same)
  then have "mset [] + mset seed_items = mset seed_items
      \<and> list_all2 T [] (finals (printed ?st0)) \<and> list_all2 R seed_items (pending ?st0)"
    by simp
  then have init: "?I ?st0" by blast
  have "?I st'"
  proof (rule loop_invariant_ok [where I = ?I and stepf = stepf and cont = cont,
          OF init _ res [unfolded run_def] nr])
    fix st :: loop_state and xs a ys and d :: 'a and r
    assume I: "?I st" and p: "pending st = xs @ a # ys" and r: "stepf d a = Inr r"
    from I obtain ss qs where m: "mset ss + mset qs = mset seed_items"
      and T: "list_all2 T ss (finals (printed st))"
      and R: "list_all2 R qs (pending st)" by blast
    from R p have "list_all2 R qs (xs @ a # ys)" by simp
    then obtain q1 q q2 where qs: "qs = q1 @ q # q2"
      and R1: "list_all2 R q1 xs" and Rq: "R q a" and R2: "list_all2 R q2 ys"
      by (auto simp: list_all2_append2 list_all2_Cons2)
    from Rq obtain rs where fa: "fst a = fst q" and c: "list_all cont rs"
      and ch: "chain stepf q rs" and a: "a = last (q # rs)" unfolding R_def by blast
    have "fst r = fst a" using id r unfolding preserves_id_def by blast
    with fa have fr: "fst r = fst q" by simp
    have ch': "chain stepf q (rs @ [r])" using ch r unfolding a by (rule chain_snoc)
    let ?st1 = "loop_body cont r (st\<lparr>pending := xs @ ys\<rparr>)"
    show "?I ?st1"
    proof (cases "cont r")
      case True
      have "list_all cont (rs @ [r]) \<and> chain stepf q (rs @ [r]) \<and> r = last (q # rs @ [r])"
        using c ch' True by simp
      then have Rr: "R q r" unfolding R_def using fr by blast
      have "list_all2 R (q1 @ q2 @ [q]) (xs @ ys @ [r])"
        using R1 R2 Rr by (intro list_all2_appendI) simp_all
      then have 1: "list_all2 R (q1 @ q2 @ [q]) (pending ?st1)"
        using True by (simp add: loop_body_fields)
      have 2: "list_all2 T ss (finals (printed ?st1))"
        using T True by (simp add: loop_body_fields finals_snoc_Result)
      have 3: "mset ss + mset (q1 @ q2 @ [q]) = mset seed_items"
        using m qs by simp
      from 1 2 3 show ?thesis by blast
    next
      case False
      have Tr: "T q r" unfolding T_def using fr False c ch' by blast
      have "list_all2 T (ss @ [q]) (finals (printed st) @ [r])"
        using T Tr by (intro list_all2_appendI) simp_all
      then have 1: "list_all2 T (ss @ [q]) (finals (printed ?st1))"
        using False by (simp add: loop_body_fields finals_snoc_done)
      have "list_all2 R (q1 @ q2) (xs @ ys)"
        using R1 R2 by (intro list_all2_appendI)
      then have 2: "list_all2 R (q1 @ q2) (pending ?st1)"
        using False by (simp add: loop_body_fields)
      have 3: "mset (ss @ [q]) + mset (q1 @ q2) = mset seed_items"
        using m qs by simp
      from 1 2 3 show ?thesis by blast
    qed
  qed
  then show ?thesis unfolding T_def R_def .
qed

subsection \<open>Termination\<close>

lemma stops_within_SucD:
  assumes "stops_within D stepf cont n a"
  shows "\<exists>m. n = Suc m
           \<and> (\<forall>d\<in>D. \<exists>r. stepf d a = Inr r \<and> (cont r \<longrightarrow> stops_within D stepf cont m r))"
proof (cases n)
  case 0
  with assms show ?thesis by simp
next
  case (Suc m)
  have "\<exists>r. stepf d a = Inr r \<and> (cont r \<longrightarrow> stops_within D stepf cont m r)" if "d \<in> D" for d
  proof -
    from assms Suc that have "case stepf d a of Inl e \<Rightarrow> False
        | Inr r \<Rightarrow> cont r \<longrightarrow> stops_within D stepf cont m r" by simp
    then show ?thesis by (cases "stepf d a") simp_all
  qed
  with Suc show ?thesis by blast
qed

lemma loop_terminates:
  assumes "list_all2 (\<lambda>a n. stops_within D stepf cont n a) (pending st) ns"
    and "sum_list ns \<le> length sched"
    and "snd ` set sched \<subseteq> D"
  shows "fst (as_completed_loop stepf cont sched st) = Exhausted"
  using assms
proof (induction sched arbitrary: st ns)
  case Nil
  show ?case
  proof (cases "pending st")
    case Nil
    then show ?thesis by simp
  next
    case (Cons a ps)
    with Nil.prems(1) obtain n ns' where "ns = n # ns'" "stops_within D stepf cont n a"
      by (auto simp: list_all2_Cons1)
    with Nil.prems(2) show ?thesis by simp
  qed
next
  case (Cons o1 sched)
  obtain c d where o1: "o1 = (c, d)" by (cases o1)
  have dD: "d \<in> D" and rest: "snd ` set sched \<subseteq> D" using Cons.prems(3) o1 by auto
  show ?case
  proof (cases "pending st = []")
    case True
    then show ?thesis by (simp add: o1)
  next
    case False
    obtain a rest where nc: "next_completed c (pending st) = (a, rest)"
      by (cases "next_completed c (pending st)")
    from next_completed_split [OF False nc]
    obtain xs ys where sp: "pending st = xs @ a # ys" "rest = xs @ ys" by blast
    from Cons.prems(1) sp(1) obtain ns1 n ns2 where ns: "ns = ns1 @ n # ns2"
      and l1: "list_all2 (\<lambda>a n. stops_within D stepf cont n a) xs ns1"
      and sa: "stops_within D stepf cont n a"
      and l2: "list_all2 (\<lambda>a n. stops_within D stepf cont n a) ys ns2"
      by (auto simp: list_all2_append1 list_all2_Cons1)
    from stops_within_SucD [OF sa] dD obtain m r where n: "n = Suc m"
      and r: "stepf d a = Inr r" and rm: "cont r \<longrightarrow> stops_within D stepf cont m r"
      by blast
    let ?st1 = "loop_body cont r (st\<lparr>pending := xs @ ys\<rparr>)"
    let ?ns1 = "if cont r then ns1 @ ns2 @ [m] else ns1 @ ns2"
    have a1: "list_all2 (\<lambda>a n. stops_within D stepf cont n a) (pending ?st1) ?ns1"
      using l1 l2 rm by (auto simp: loop_body_fields intro!: list_all2_appendI)
    have a2: "sum_list ?ns1 \<le> length sched"
      using Cons.prems(2) ns n by auto
    have "as_completed_loop stepf cont (o1 # sched) st = as_completed_loop stepf cont sched ?st1"
      using False nc r sp(2) by (simp add: o1)
    with Cons.IH [OF a1 a2 rest] show ?thesis by simp
  qed
qed

lemma run_terminates:
  assumes "\<forall>s\<in>set seed_items. stops_within D stepf cont (bound s) s"
    and "sum_list (map bound seed_items) \<le> length sched"
    and "snd ` set sched \<subseteq> D"
  shows "fst (run stepf cont seed_items sched) = Exhausted"
proof -
  have "list_all2 (\<lambda>a n. stops_within D stepf cont n a) seed_items (map bound seed_items)"
    using assms(1) by (simp add: list_all2_map2 list_all2_same)
  then have "list_all2 (\<lambda>a n. stops_within D stepf cont n a)
      (pending \<lparr>pending = seed_items, submitted = seed_items, printed = []\<rparr>)
      (map bound seed_items)" by simp
  from loop_terminates [OF this assms(2,3)] show ?thesis
    unfolding run_def .
qed

subsection \<open>A failing step\<close>

lemma failure_step:
  assumes w: "run stepf cont seed_items p = (Waiting, st0)"
    and nc: "next_completed c (pending st0) = (a, rest)"
    and f: "stepf d a = Inl e"
  shows "run stepf cont seed_items (p @ (c, d) # later) = (Raised e, st0\<lparr>pending := rest\<rparr>)"
proof -
  have ne: "pending st0 \<noteq> []"
    using w loop_Waiting_pending unfolding run_def by blast
  then have "as_completed_loop stepf cont ((c, d) # later) st0 = (Raised e, st0\<lparr>pending := rest\<rparr>)"
    using nc f by simp
  with w show ?thesis by (simp add: run_def loop_append)
qed

subsection \<open>The fixed step of the reference scenario\<close>

lemma delta_step_eq: "delta_step d (i, x, y) = Inr (i, x + 1 / 2, y)"
  by (simp add: delta_step_def)

lemma preserves_id_delta: "preserves_id delta_step"
  by (simp add: preserves_id_def delta_step_def)

lemma wd_vals:
  "within_distance (i, 1 / 2, 0)" "within_distance (i, 1, 0)" "within_distance (i, 3 / 2, 0)"
  "\<not> within_distance (i, 2, 0)"
  by (simp_all add: within_distance_def max_distance_squared_def power2_eq_square)

lemma within_distance_delta: "within_distance (i, (real j + 1) / 2, 0) = (j < 3)"
proof -
  let ?x = "(real j + 1) / 2"
  have x0: "0 \<le> ?x" by simp
  have "?x\<^sup>2 < 2\<^sup>2 \<longleftrightarrow> ?x < 2"
  proof
    assume "?x\<^sup>2 < 2\<^sup>2"
    then show "?x < 2" by (rule power2_less_imp_less) simp
  next
    assume "?x < 2"
    then show "?x\<^sup>2 < 2\<^sup>2" using x0 by (rule power_strict_mono) simp
  qed
  moreover have "?x < 2 \<longleftrightarrow> j < 3" by auto
  ultimately show ?thesis
    by (simp add: within_distance_def max_distance_squared_def)
qed

lemma chain_delta_nth:
  "chain delta_step (i, x, y) l \<Longrightarrow> j < length l \<Longrightarrow> l ! j = (i, x + (real j + 1) / 2, y)"
proof (induction l arbitrary: x j)
  case Nil
  then show ?case by simp
next
  case (Cons r l)
  from Cons.prems(1) have r: "r = (i, x + 1 / 2, y)" and ch: "chain delta_step (i, x + 1 / 2, y) l"
    by (auto simp: delta_step_eq)
  show ?case
  proof (cases j)
    case 0
    with r show ?thesis by simp
  next
    case (Suc k)
    with Cons.prems(2) have "k < length l" by simp
    from Cons.IH [OF ch this] Suc show ?thesis by (simp add: field_simps)
  qed
qed

lemma chain_delta_four:
  assumes ch: "chain delta_step (i, 0, 0) (rs @ [r])"
    and c: "list_all within_distance rs" and nc: "\<not> within_distance r"
  shows "rs = [(i, 1 / 2, 0), (i, 1, 0), (i, 3 / 2, 0)] \<and> r = (i, 2, 0)"
proof -
  let ?l = "rs @ [r]"
  have nth: "?l ! j = (i, (real j + 1) / 2, 0)" if "j < length ?l" for j
    using chain_delta_nth [OF ch that] by simp
  have le: "length rs \<le> 3"
  proof (rule ccontr)
    assume "\<not> length rs \<le> 3"
    then have 3: "3 < length rs" by simp
    then have "rs ! 3 \<in> set rs" by simp
    with c have "within_distance (rs ! 3)" by (simp add: list_all_iff)
    moreover have "rs ! 3 = (i, (real 3 + 1) / 2, 0)"
      using nth [of 3] 3 by (simp add: nth_append)
    ultimately show False using within_distance_delta [of i 3] by simp
  qed
  have rl: "r = (i, (real (length rs) + 1) / 2, 0)"
    using nth [of "length rs"] by simp
  with nc have ge: "\<not> length rs < 3" using within_distance_delta [of i "length rs"] by simp
  with le have len: "length rs = 3" by simp
  have r: "r = (i, 2, 0)" using rl len by simp
  have e: "rs ! j = (i, (real j + 1) / 2, 0)" if "j < 3" for j
    using nth [of j] that len by (simp add: nth_append)
  from len obtain a b c where rs: "rs = [a, b, c]"
    by (auto simp: length_Suc_conv numeral_3_eq_3)
  from e [of 0] e [of 1] e [of 2] rs have "a = (i, 1 / 2, 0)" "b = (i, 1, 0)" "c = (i, 3 / 2, 0)"
    by simp_all
  with rs r show ?thesis by simp
qed

lemma stops_within_delta:
  "stops_within UNIV delta_step within_distance (Suc (Suc (Suc (Suc 0)))) (i, 0, 0)"
  using within_distance_delta [of i 3]
  by (simp add: delta_step_eq)

lemma stops_within_delta4: "stops_within UNIV delta_step within_distance 4 (i, 0, 0)"
proof -
  have n: "(4::nat) = Suc (Suc (Suc (Suc 0)))" by simp
  show ?thesis unfolding n by (rule stops_within_delta)
qed

lemma delta_run_one:
  "run delta_step within_distance [(0, 0, 0)] [(0, ()), (0, ()), (0, ()), (0, ())]
     = (Exhausted,
        \<lparr>pending = [],
         submitted = [(0, 0, 0), (0, 1 / 2, 0), (0, 1, 0), (0, 3 / 2, 0)],
         printed = [Result (0, 1 / 2, 0), Result (0, 1, 0), Result (0, 3 / 2, 0),
                    Result (0, 2, 0), Walk_done 0]\<rparr>)"
  by (simp add: run_def next_completed_def loop_body_def Let_def delta_step_eq wd_vals)

subsection \<open>The random step under the draws (1, 0) and (1, 1)\<close>

lemma step_vals:
  "step (1, 0) (i, x, y) = (i, x + 1, y)" "step (1, 1) (i, x, y) = (i, x + 1, y + 1)"
  by (simp_all add: step_def)

lemma wd_more:
  "within_distance (i, 1, 1)" "\<not> within_distance (i, 2, 1)" "\<not> within_distance (i, 2, 2)"
  by (simp_all add: within_distance_def max_distance_squared_def power2_eq_square)

lemma walk_two_draws:
  "stops_within {(1, 0), (1, 1)} (\<lambda>d p. Inr (step d p) :: unit + pos) within_distance
     (Suc (Suc 0)) (i, 0, 0)"
  by (simp add: step_vals wd_vals wd_more)

subsection \<open>A step function that fails for task 0\<close>

lemma failing_run_first:
  "run (\<lambda>(d::unit) p. if fst p = 0 then Inl ''boom'' else Inr (step (1 / 2, 0) p))
       within_distance [(0, 0, 0), (1, 0, 0)] [(0, ()), (0, ()), (0, ())]
     = (Raised ''boom'',
        \<lparr>pending = [(1, 0, 0)], submitted = [(0, 0, 0), (1, 0, 0)], printed = []\<rparr>)"
  by (simp add: run_def next_completed_def)

lemma failing_run_second:
  "run (\<lambda>(d::unit) p. if fst p = 0 then Inl ''boom'' else Inr (step (1 / 2, 0) p))
       within_distance [(0, 0, 0), (1, 0, 0)] [(1, ()), (0, ()), (0, ()), (0, ())]
     = (Raised ''boom'',
        \<lparr>pending = [(1, 1 / 2, 0)], submitted = [(0, 0, 0), (1, 0, 0), (1, 1 / 2, 0)],
         printed = [Result (1, 1 / 2, 0)]\<rparr>)"
  by (simp add: run_def next_completed_def loop_body_def Let_def step_def wd_vals)

section \<open>Properties of the completion-driven loop\<close>

text \<open>
  C1: the step function keeps the identity of its argument. Whenever the loop ends because
  no future is outstanding, it has printed exactly one terminal result per seed item: the
  terminal results, in the order printed, are matched one to one with the seed items, and
  each carries the identity of its seed item, fails the test, and is the last result of
  a chain of steps from that seed item on whose earlier results the test held. And the
  loop does end: when, under the draws that the schedule holds, every seed task stops
  within a bound of steps (no step fails and the test turns false), every such schedule
  at least as long as the sum of the bounds runs the loop to its end. Nothing here needs
  the seed batch to be non-empty.
\<close>

theorem one_terminal_result_per_seed:
  assumes "preserves_id stepf"
  shows "(fst (run stepf should_continue seed_items sched) = Exhausted
          \<longrightarrow> pending (snd (run stepf should_continue seed_items sched)) = []
            \<and> length (finals (printed (snd (run stepf should_continue seed_items sched))))
                = length seed_items
            \<and> mset (map fst (finals (printed (snd (run stepf should_continue seed_items sched)))))
                = mset (map fst seed_items)
            \<and> (\<exists>ss. mset ss = mset seed_items
                  \<and> list_all2
                       (\<lambda>s r. fst r = fst s \<and> \<not> should_continue r
                          \<and> (\<exists>rs. list_all should_continue rs \<and> chain stepf s (rs @ [r])))
                       ss (finals (printed (snd (run stepf should_continue seed_items sched))))))
       \<and> ((\<forall>s\<in>set seed_items.
               stops_within (snd ` set sched) stepf should_continue (bound s) s)
            \<and> sum_list (map bound seed_items) \<le> length sched
          \<longrightarrow> fst (run stepf should_continue seed_items sched) = Exhausted)"
proof -
  obtain en st' where res: "run stepf should_continue seed_items sched = (en, st')"
    by (cases "run stepf should_continue seed_items sched")
  have A: "pending st' = [] \<and> length (finals (printed st')) = length seed_items
      \<and> mset (map fst (finals (printed st'))) = mset (map fst seed_items)
      \<and> (\<exists>ss. mset ss = mset seed_items
            \<and> list_all2
                 (\<lambda>s r. fst r = fst s \<and> \<not> should_continue r
                    \<and> (\<exists>rs. list_all should_continue rs \<and> chain stepf s (rs @ [r])))
                 ss (finals (printed st')))"
    if en: "en = Exhausted"
  proof -
    have p: "pending st' = []"
      using res en loop_Exhausted_pending unfolding run_def by blast
    have m: "mset (map fst (finals (printed st'))) = mset (map fst seed_items)"
      using run_finals [OF assms res] en p by simp
    have "size (mset (map fst (finals (printed st')))) = size (mset (map fst seed_items))"
      by (simp only: m)
    then have l: "length (finals (printed st')) = length seed_items" by simp
    have nr: "\<forall>e. en \<noteq> Raised e" using en by simp
    from run_matching [OF assms res nr] p
    have c: "\<exists>ss. mset ss = mset seed_items
            \<and> list_all2
                 (\<lambda>s r. fst r = fst s \<and> \<not> should_continue r
                    \<and> (\<exists>rs. list_all should_continue rs \<and> chain stepf s (rs @ [r])))
                 ss (finals (printed st'))"
      by auto
    from p m l c show ?thesis by blast
  qed
  have B: "fst (run stepf should_continue seed_items sched) = Exhausted"
    if "\<forall>s\<in>set seed_items. stops_within (snd ` set sched) stepf should_continue (bound s) s"
      and "sum_list (map bound seed_items) \<le> length sched"
    using that by (rule run_terminates) simp
  from A B show ?thesis by (simp add: res)
qed

text \<open>
  The cell as written, with two walkers and a schedule whose draws are (1, 0) and (1, 1):
  whatever the order of these draws, a walker is at distance 2 or more after two steps.
\<close>

theorem one_terminal_result_per_seed_witness:
  "preserves_id (\<lambda>d p. Inr (step d p) :: unit + pos)
   \<and> list_all (stops_within {(1, 0), (1, 1)} (\<lambda>d p. Inr (step d p) :: unit + pos)
         within_distance (Suc (Suc 0))) [(0, 0, 0), (1, 0, 0)]
   \<and> seeds (Suc (Suc 0)) = [(0, 0, 0), (1, 0, 0)]
   \<and> snd ` set [(0::nat, (1::real, 0::real)), (0, (1, 1)), (0, (1, 1)), (0, (1, 0))]
       = {(1, 0), (1, 1)}
   \<and> fst (random_walks (Suc (Suc 0)) [(0, (1, 0)), (0, (1, 1)), (0, (1, 1)), (0, (1, 0))])
       = Exhausted
   \<and> length (finals (printed (snd
         (random_walks (Suc (Suc 0)) [(0, (1, 0)), (0, (1, 1)), (0, (1, 1)), (0, (1, 0))]))))
       = length (seeds (Suc (Suc 0)))
   \<and> list_all (\<lambda>r. \<not> within_distance r) (finals (printed (snd
         (random_walks (Suc (Suc 0)) [(0, (1, 0)), (0, (1, 1)), (0, (1, 1)), (0, (1, 0))]))))"
proof -
  let ?F = "\<lambda>d p. Inr (step d p) :: unit + pos"
  let ?sched = "[(0::nat, (1::real, 0::real)), (0, (1, 1)), (0, (1, 1)), (0, (1, 0))]"
  let ?D = "{(1::real, 0::real), (1, 1)}"
  let ?seeds = "[(0, 0, 0), (1, 0, 0)] :: pos list"
  let ?bound = "\<lambda>s :: pos. Suc (Suc 0)"
  have sd: "seeds (Suc (Suc 0)) = ?seeds" by (simp add: seeds_def)
  have D: "snd ` set ?sched = ?D" by auto
  have h1: "preserves_id ?F" by (simp add: preserves_id_def step_def)
  have la: "list_all (stops_within ?D ?F within_distance (Suc (Suc 0))) ?seeds"
    using walk_two_draws [of 0] walk_two_draws [of 1] by simp
  have h2: "\<forall>s\<in>set ?seeds. stops_within (snd ` set ?sched) ?F within_distance (?bound s) s"
    unfolding D using la by (simp only: list_all_iff)
  have h3: "sum_list (map ?bound ?seeds) \<le> length ?sched" by simp
  note t = one_terminal_result_per_seed [of ?F within_distance ?seeds ?sched ?bound, OF h1]
  from t h2 h3 have e: "fst (run ?F within_distance ?seeds ?sched) = Exhausted" by blast
  from t e have l: "length (finals (printed (snd (run ?F within_distance ?seeds ?sched))))
          = length ?seeds" by blast
  from t e obtain ss where c: "list_all2
              (\<lambda>s r. fst r = fst s \<and> \<not> within_distance r
                 \<and> (\<exists>rs. list_all within_distance rs \<and> chain ?F s (rs @ [r])))
              ss (finals (printed (snd (run ?F within_distance ?seeds ?sched))))" by blast
  have nw: "list_all (\<lambda>r. \<not> within_distance r)
      (finals (printed (snd (run ?F within_distance ?seeds ?sched))))"
    unfolding list_all_iff
  proof
    fix r assume "r \<in> set (finals (printed (snd (run ?F within_distance ?seeds ?sched))))"
    with c obtain s where "fst r = fst s \<and> \<not> within_distance r
        \<and> (\<exists>rs. list_all within_distance rs \<and> chain ?F s (rs @ [r]))"
      unfolding list_all2_conv_all_nth in_set_conv_nth by metis
    then show "\<not> within_distance r" by blast
  qed
  from h1 la sd D e l nw show ?thesis
    unfolding random_walks_def sd by blast
qed

text \<open>
  C2 (as the code has it): a failing step is not turned into an outcome. When the future
  that completes next holds a failure, the loop ends at once with that failure as its own
  exception, whatever completions would follow. The lines printed for the failed task are
  results only: it has no closing line, before or after. The failed item is taken out of
  the outstanding set and nothing of its task is left there or resubmitted: no retry.
\<close>

theorem step_failure_leaves_loop:
  assumes "preserves_id stepf" and "distinct (map fst seed_items)"
    and "run stepf should_continue seed_items p = (Waiting, st0)"
    and "next_completed c (pending st0) = (a, rest)"
    and "stepf d a = Inl e"
  shows "run stepf should_continue seed_items (p @ (c, d) # later)
           = (Raised e, st0\<lparr>pending := rest\<rparr>)
       \<and> lines_of (fst a) (printed st0) = map Result (results (lines_of (fst a) (printed st0)))
       \<and> Walk_done (fst a) \<notin> set (printed st0)
       \<and> fst a \<notin> fst ` set rest"
proof -
  have ne: "pending st0 \<noteq> []"
    using assms(3) loop_Waiting_pending unfolding run_def by blast
  from next_completed_split [OF ne assms(4)]
  obtain xs ys where sp: "pending st0 = xs @ a # ys" "rest = xs @ ys" by blast
  have inv: "distinct (map fst (pending st0))
       \<and> (\<forall>b\<in>set (pending st0). Walk_done (fst b) \<notin> set (printed st0))"
    by (rule run_pending_not_done [OF assms(1,2,3)]) simp
  have 1: "Walk_done (fst a) \<notin> set (printed st0)" using inv sp by simp
  have 2: "fst a \<notin> fst ` set rest" using inv sp by auto
  have 3: "lines_of i ls = map Result (results (lines_of i ls))" if "Walk_done i \<notin> set ls" for i ls
    using that by (induction ls rule: results.induct) (auto simp: lines_of_simps)
  from failure_step [OF assms(3,4,5)] 1 2 3 [OF 1] show ?thesis by blast
qed

theorem step_failure_leaves_loop_witness:
  "preserves_id (\<lambda>(d::unit) p. if fst p = 0 then Inl ''boom'' else Inr (step (1 / 2, 0) p))
   \<and> run (\<lambda>(d::unit) p. if fst p = 0 then Inl ''boom'' else Inr (step (1 / 2, 0) p))
        within_distance [(0, 0, 0), (1, 0, 0)] []
       = (Waiting, \<lparr>pending = [(0, 0, 0), (1, 0, 0)], submitted = [(0, 0, 0), (1, 0, 0)],
                    printed = []\<rparr>)
   \<and> next_completed 0 [(0, 0, 0), (1, 0, 0)] = ((0, 0, 0), [(1, 0, 0)])
   \<and> run (\<lambda>(d::unit) p. if fst p = 0 then Inl ''boom'' else Inr (step (1 / 2, 0) p))
        within_distance [(0, 0, 0), (1, 0, 0)] ([] @ (0, ()) # [(0, ())])
       = (Raised ''boom'',
          \<lparr>pending = [(1, 0, 0)], submitted = [(0, 0, 0), (1, 0, 0)], printed = []\<rparr>)"
proof -
  let ?F = "\<lambda>(d::unit) p. if fst p = 0 then Inl ''boom'' else Inr (step (1 / 2, 0) p)"
  let ?seeds = "[(0, 0, 0), (1, 0, 0)] :: pos list"
  let ?st0 = "\<lparr>pending = ?seeds, submitted = ?seeds, printed = []\<rparr>"
  have h1: "preserves_id ?F" by (simp add: preserves_id_def step_def)
  have h2: "distinct (map fst ?seeds)" by simp
  have h3: "run ?F within_distance ?seeds [] = (Waiting, ?st0)" by (simp add: run_def)
  have n: "next_completed 0 ?seeds = ((0, 0, 0), [(1, 0, 0)])" by (simp add: next_completed_def)
  then have h4: "next_completed 0 (pending ?st0) = ((0, 0, 0), [(1, 0, 0)])" by simp
  have h5: "?F () (0, 0, 0) = Inl ''boom''" by simp
  from step_failure_leaves_loop [of ?F ?seeds within_distance "[]" ?st0 0 "(0, 0, 0)" "[(1, 0, 0)]"
      "()" "''boom''" "[(0, ())]", OF h1 h2 h3 h4 h5]
  have "run ?F within_distance ?seeds ([] @ (0, ()) # [(0, ())])
       = (Raised ''boom'', ?st0\<lparr>pending := [(1, 0, 0)]\<rparr>)" by blast
  then have "run ?F within_distance ?seeds ([] @ (0, ()) # [(0, ())])
       = (Raised ''boom'', \<lparr>pending = [(1, 0, 0)], submitted = ?seeds, printed = []\<rparr>)" by simp
  with h1 h3 n show ?thesis by blast
qed

text \<open>
  C2, a counterexample to the claim as stated: task 0 fails at its first step, the loop is left by the
  exception, and the output holds no line at all, so no outcome for task 0.
\<close>

theorem failed_task_has_no_outcome:
  "fst (run (\<lambda>(d::unit) p. if fst p = 0 then Inl ''boom'' else Inr (step (1 / 2, 0) p))
         within_distance [(0, 0, 0), (1, 0, 0)] [(0, ()), (0, ()), (0, ())]) = Raised ''boom''
   \<and> printed (snd (run (\<lambda>(d::unit) p. if fst p = 0 then Inl ''boom'' else Inr (step (1 / 2, 0) p))
         within_distance [(0, 0, 0), (1, 0, 0)] [(0, ()), (0, ()), (0, ())])) = []"
  unfolding failing_run_first by simp

text \<open>
  C3 (as the code has it): in every state the loop reaches, the closing line of a task
  is printed only when the task's lines are its first \<open>k\<close> results, each of which passed
  the test, then the result number \<open>k + 1\<close>, which failed it, then the closing line; the
  results form one chain of steps from the seed, and the step was submitted for the task
  exactly \<open>k + 1\<close> times. So the \<open>k\<close> intermediate results are all printed, in order,
  before the terminal one. When the loop ends with no future outstanding, every seed task
  has its closing line.
\<close>

theorem terminal_line_after_all_results:
  assumes "preserves_id stepf" and "distinct (map fst seed_items)" and "s \<in> set seed_items"
  shows "(Walk_done (fst s) \<in> set (printed (snd (run stepf should_continue seed_items sched)))
          \<longrightarrow> (\<exists>rs r.
                lines_of (fst s) (printed (snd (run stepf should_continue seed_items sched)))
                  = map Result rs @ [Result r, Walk_done (fst s)]
                \<and> list_all should_continue rs \<and> \<not> should_continue r
                \<and> chain stepf s (rs @ [r])
                \<and> items_of (fst s) (submitted (snd (run stepf should_continue seed_items sched)))
                  = s # rs))
       \<and> (fst (run stepf should_continue seed_items sched) = Exhausted
          \<longrightarrow> Walk_done (fst s) \<in> set (printed (snd (run stepf should_continue seed_items sched))))"
proof -
  obtain en st' where res: "run stepf should_continue seed_items sched = (en, st')"
    by (cases "run stepf should_continue seed_items sched")
  note rec = run_task_record [OF assms(1,2) res assms(3)]
  have A: "\<exists>rs r. lines_of (fst s) (printed st') = map Result rs @ [Result r, Walk_done (fst s)]
                \<and> list_all should_continue rs \<and> \<not> should_continue r
                \<and> chain stepf s (rs @ [r])
                \<and> items_of (fst s) (submitted st') = s # rs"
    if w: "Walk_done (fst s) \<in> set (printed st')"
  proof -
    have "lines_of (fst s) (printed st') \<noteq> map Result rs" for rs
      using w unfolding Walk_done_lines_of [of "fst s" "printed st'"] by auto
    with rec obtain rs r where "task_done stepf should_continue st' s rs r" by blast
    then show ?thesis unfolding task_done_def by blast
  qed
  have B: "Walk_done (fst s) \<in> set (printed st')" if e: "en = Exhausted"
  proof -
    have "pending st' = []"
      using res e loop_Exhausted_pending unfolding run_def by blast
    then have "items_of (fst s) (pending st') = []" by (simp add: items_of_Nil)
    with rec e obtain rs r where "task_done stepf should_continue st' s rs r" by blast
    then have "Walk_done (fst s) \<in> set (lines_of (fst s) (printed st'))"
      by (simp add: task_done_def)
    then show ?thesis by (simp add: Walk_done_lines_of [of "fst s" "printed st'"])
  qed
  from A B show ?thesis by (simp add: res)
qed

theorem terminal_line_after_all_results_witness:
  "preserves_id delta_step
   \<and> distinct (map fst [(0, 0, 0) :: pos])
   \<and> fst (run delta_step within_distance [(0, 0, 0)] [(0, ()), (0, ()), (0, ()), (0, ())]) = Exhausted
   \<and> Walk_done 0 \<in> set (printed (snd (run delta_step within_distance [(0, 0, 0)]
         [(0, ()), (0, ()), (0, ()), (0, ())])))
   \<and> lines_of 0 (printed (snd (run delta_step within_distance [(0, 0, 0)]
         [(0, ()), (0, ()), (0, ()), (0, ())])))
       = map Result [(0, 1 / 2, 0), (0, 1, 0), (0, 3 / 2, 0)] @ [Result (0, 2, 0), Walk_done 0]"
proof -
  let ?seeds = "[(0, 0, 0)] :: pos list"
  let ?sched = "[(0, ()), (0, ()), (0, ()), (0, ())] :: (nat \<times> unit) list"
  have h1: "preserves_id delta_step" by (rule preserves_id_delta)
  have h2: "distinct (map fst ?seeds)" by simp
  have h3: "(0, 0, 0) \<in> set ?seeds" by simp
  have e: "fst (run delta_step within_distance ?seeds ?sched) = Exhausted"
    unfolding delta_run_one by simp
  have l: "lines_of 0 (printed (snd (run delta_step within_distance ?seeds ?sched)))
       = map Result [(0, 1 / 2, 0), (0, 1, 0), (0, 3 / 2, 0)] @ [Result (0, 2, 0), Walk_done 0]"
    unfolding delta_run_one by (simp add: lines_of_simps)
  from terminal_line_after_all_results [of delta_step ?seeds "(0, 0, 0)" within_distance ?sched,
      OF h1 h2 h3] e
  have "Walk_done 0 \<in> set (printed (snd (run delta_step within_distance ?seeds ?sched)))"
    by simp
  with h1 h2 e l show ?thesis by blast
qed

text \<open>
  C3, a counterexample to the claim as stated: in a complete run of one walker the result (0, 0.5, 0), on
  which the test holds, so that it is not terminal, is among the printed lines.
\<close>

theorem intermediate_results_printed:
  "fst (run delta_step within_distance [(0, 0, 0)] [(0, ()), (0, ()), (0, ()), (0, ())]) = Exhausted
   \<and> within_distance (0, 1 / 2, 0)
   \<and> Result (0, 1 / 2, 0)
       \<in> set (printed (snd (run delta_step within_distance [(0, 0, 0)]
                 [(0, ()), (0, ()), (0, ()), (0, ())])))"
  unfolding delta_run_one by (simp add: wd_vals)

text \<open>
  C4: the seed items have distinct identities and the step function keeps the identity.
  Then in every state the loop reaches (the state after any schedule, however the loop
  got there) no two outstanding submissions belong to one task, and for every task the
  number of submissions made is at most one more than the number of its results printed:
  submission number \<open>N + 1\<close> is made only when \<open>N\<close> results of the task have been observed.
\<close>

theorem one_outstanding_step_per_task:
  assumes "preserves_id stepf" and "distinct (map fst seed_items)"
  shows "distinct (map fst (pending (snd (run stepf should_continue seed_items sched))))
       \<and> (\<forall>i. length (items_of i (submitted (snd (run stepf should_continue seed_items sched))))
               \<le> length (items_of i
                    (results (printed (snd (run stepf should_continue seed_items sched))))) + 1)"
proof -
  obtain en st' where res: "run stepf should_continue seed_items sched = (en, st')"
    by (cases "run stepf should_continue seed_items sched")
  from run_counts [OF assms res] show ?thesis by (simp add: res)
qed

theorem one_outstanding_step_per_task_witness:
  "preserves_id (\<lambda>d p. Inr (step d p) :: unit + pos)
   \<and> distinct (map fst (seeds 2))
   \<and> distinct (map fst (pending (snd (random_walks 2 [(1, (1 / 2, 0)), (0, (3, 0))]))))"
proof -
  have h1: "preserves_id (\<lambda>d p. Inr (step d p) :: unit + pos)"
    by (simp add: preserves_id_def step_def)
  have "seeds 2 = [(0, 0, 0), (1, 0, 0)]"
    by (simp add: seeds_def numeral_2_eq_2)
  then have h2: "distinct (map fst (seeds 2))" by simp
  from one_outstanding_step_per_task [OF h1 h2, of within_distance "[(1, (1 / 2, 0)), (0, (3, 0))]"]
    h1 h2
  show ?thesis unfolding random_walks_def by blast
qed

text \<open>
  C5: the scenario with seeds (0, 0, 0) and (1, 0, 0), the step that always adds 0.5 to x and
  the distance test. Every schedule of eight entries or more, whatever the completion
  order, runs the loop to its end; each task is submitted four times, its results are
  the positions 0.5, 1.0, 1.5, 2.0 in this order, and the (id, final x) pairs of the
  terminal results are exactly (0, 2) and (1, 2).
\<close>

theorem scenario_two_walks:
  assumes "8 \<le> length sched"
  shows "fst (run delta_step within_distance [(0, 0, 0), (1, 0, 0)] sched) = Exhausted
    \<and> lines_of 0 (printed (snd (run delta_step within_distance [(0, 0, 0), (1, 0, 0)] sched)))
        = [Result (0, 1 / 2, 0), Result (0, 1, 0), Result (0, 3 / 2, 0), Result (0, 2, 0),
           Walk_done 0]
    \<and> lines_of 1 (printed (snd (run delta_step within_distance [(0, 0, 0), (1, 0, 0)] sched)))
        = [Result (1, 1 / 2, 0), Result (1, 1, 0), Result (1, 3 / 2, 0), Result (1, 2, 0),
           Walk_done 1]
    \<and> items_of 0 (submitted (snd (run delta_step within_distance [(0, 0, 0), (1, 0, 0)] sched)))
        = [(0, 0, 0), (0, 1 / 2, 0), (0, 1, 0), (0, 3 / 2, 0)]
    \<and> items_of 1 (submitted (snd (run delta_step within_distance [(0, 0, 0), (1, 0, 0)] sched)))
        = [(1, 0, 0), (1, 1 / 2, 0), (1, 1, 0), (1, 3 / 2, 0)]
    \<and> set (map (\<lambda>r. (fst r, fst (snd r)))
          (finals (printed (snd (run delta_step within_distance [(0, 0, 0), (1, 0, 0)] sched)))))
        = {(0, 2), (1, 2)}"
proof -
  let ?seeds = "[(0, 0, 0), (1, 0, 0)] :: pos list"
  obtain en st' where res: "run delta_step within_distance ?seeds sched = (en, st')"
    by (cases "run delta_step within_distance ?seeds sched")
  have dist: "distinct (map fst ?seeds)" by simp
  have "fst (run delta_step within_distance ?seeds sched) = Exhausted"
  proof (rule run_terminates [where bound = "\<lambda>_. 4" and D = UNIV])
    show "\<forall>s\<in>set ?seeds. stops_within UNIV delta_step within_distance 4 s"
      by (simp add: stops_within_delta4)
    show "sum_list (map (\<lambda>_. 4) ?seeds) \<le> length sched" using assms by simp
    show "snd ` set sched \<subseteq> UNIV" by simp
  qed
  with res have en: "en = Exhausted" by simp
  have p: "pending st' = []"
    using res en loop_Exhausted_pending unfolding run_def by blast
  have task: "lines_of i (printed st')
        = [Result (i, 1 / 2, 0), Result (i, 1, 0), Result (i, 3 / 2, 0), Result (i, 2, 0), Walk_done i]
      \<and> items_of i (submitted st') = [(i, 0, 0), (i, 1 / 2, 0), (i, 1, 0), (i, 3 / 2, 0)]"
    if s: "(i, 0, 0) \<in> set ?seeds" for i
  proof -
    from run_task_record [OF preserves_id_delta dist res s] en p
    obtain rs r where "task_done delta_step within_distance st' (i, 0, 0) rs r"
      by (auto simp: items_of_Nil)
    then have l: "lines_of i (printed st') = map Result rs @ [Result r, Walk_done i]"
      and c: "list_all within_distance rs" and nc: "\<not> within_distance r"
      and ch: "chain delta_step (i, 0, 0) (rs @ [r])"
      and sub: "items_of i (submitted st') = (i, 0, 0) # rs"
      by (simp_all add: task_done_def)
    from chain_delta_four [OF ch c nc] l sub show ?thesis by simp
  qed
  have t0: "lines_of 0 (printed st')
        = [Result (0, 1 / 2, 0), Result (0, 1, 0), Result (0, 3 / 2, 0), Result (0, 2, 0), Walk_done 0]"
    and s0: "items_of 0 (submitted st') = [(0, 0, 0), (0, 1 / 2, 0), (0, 1, 0), (0, 3 / 2, 0)]"
    using task [of 0] by simp_all
  have t1: "lines_of 1 (printed st')
        = [Result (1, 1 / 2, 0), Result (1, 1, 0), Result (1, 3 / 2, 0), Result (1, 2, 0), Walk_done 1]"
    and s1: "items_of 1 (submitted st') = [(1, 0, 0), (1, 1 / 2, 0), (1, 1, 0), (1, 3 / 2, 0)]"
    using task [of 1] by simp_all
  from run_finals [OF preserves_id_delta res] en p
  have m: "mset (map fst (finals (printed st'))) = mset (map fst ?seeds)"
    and f: "\<forall>r\<in>set (finals (printed st')). \<not> within_distance r \<and> Result r \<in> set (printed st')"
    by simp_all
  from m have "set_mset (mset (map fst (finals (printed st')))) = set_mset (mset (map fst ?seeds))"
    by (simp only:)
  then have ids: "fst ` set (finals (printed st')) = {0, 1}" by auto
  have only: "r = (fst r, 2, 0)" if r: "r \<in> set (finals (printed st'))" for r
  proof -
    from r ids have i: "fst r = 0 \<or> fst r = 1" by blast
    from r f have nc: "\<not> within_distance r" and pr: "Result r \<in> set (lines_of (fst r) (printed st'))"
      by (simp_all add: Result_lines_of [symmetric])
    have wd: "within_distance (j, 1 / 2, 0)" "within_distance (j, 1, 0)" "within_distance (j, 3 / 2, 0)" for j
      using within_distance_delta [of j 0] within_distance_delta [of j 1]
        within_distance_delta [of j 2] by simp_all
    from i pr nc wd show ?thesis
      by (auto simp: t0 t1)
  qed
  have fin: "set (map (\<lambda>r. (fst r, fst (snd r))) (finals (printed st'))) = {(0, 2), (1, 2)}"
  proof -
    have "(\<lambda>r. (fst r, fst (snd r))) ` set (finals (printed st'))
          = (\<lambda>i. (i, 2)) ` (fst ` set (finals (printed st')))"
    proof -
      have "(fst r, fst (snd r)) = (fst r, 2)" if "r \<in> set (finals (printed st'))" for r
        using only [OF that] by (metis fst_conv snd_conv)
      then show ?thesis by (force simp: image_iff)
    qed
    then show ?thesis by (simp add: ids)
  qed
  from en t0 t1 s0 s1 fin show ?thesis by (simp add: res)
qed

theorem scenario_two_walks_witness:
  "8 \<le> length (replicate 8 (0::nat, ()))
   \<and> fst (run delta_step within_distance [(0, 0, 0), (1, 0, 0)] (replicate 8 (0, ()))) = Exhausted
   \<and> set (map (\<lambda>r. (fst r, fst (snd r)))
          (finals (printed (snd (run delta_step within_distance [(0, 0, 0), (1, 0, 0)]
             (replicate 8 (0, ())))))))
        = {(0, 2), (1, 2)}"
proof -
  have h: "8 \<le> length (replicate 8 (0::nat, ()))" by simp
  from scenario_two_walks [OF h] h show ?thesis by blast
qed

text \<open>
  C6: the test is false on every result and no step fails. Then every schedule with at
  least one entry per seed item runs the loop to its end; the only submissions ever made
  are the seed items (no resubmission), and the output is, for each seed item in the order
  of completion, its first result followed at once by its closing line: the first result
  of every task is its terminal result.
\<close>

theorem always_false_one_step:
  assumes "\<forall>r. \<not> should_continue r"
    and "\<forall>d a. \<exists>r. stepf d a = Inr r"
    and "length seed_items \<le> length sched"
  shows "fst (run stepf should_continue seed_items sched) = Exhausted
       \<and> pending (snd (run stepf should_continue seed_items sched)) = []
       \<and> submitted (snd (run stepf should_continue seed_items sched)) = seed_items
       \<and> (\<exists>rs ss. printed (snd (run stepf should_continue seed_items sched))
                     = concat (map (\<lambda>r. [Result r, Walk_done (fst r)]) rs)
             \<and> finals (printed (snd (run stepf should_continue seed_items sched))) = rs
             \<and> mset ss = mset seed_items
             \<and> list_all2 (\<lambda>s r. \<exists>d. stepf d s = Inr r) ss rs)"
proof -
  obtain en st' where res: "run stepf should_continue seed_items sched = (en, st')"
    by (cases "run stepf should_continue seed_items sched")
  have one: "stops_within UNIV stepf should_continue (Suc 0) s" for s
  proof -
    have "case stepf d s of Inl e \<Rightarrow> False
        | Inr r \<Rightarrow> should_continue r \<longrightarrow> stops_within UNIV stepf should_continue 0 r" for d
    proof -
      from assms(2) obtain r where "stepf d s = Inr r" by blast
      moreover have "\<not> should_continue r" using assms(1) by blast
      ultimately show ?thesis by simp
    qed
    then show ?thesis by simp
  qed
  have "sum_list (map (\<lambda>_. Suc 0) seed_items) \<le> length sched"
    using assms(3) by (simp add: sum_list_triv)
  with one have "fst (run stepf should_continue seed_items sched) = Exhausted"
    by (intro run_terminates [where bound = "\<lambda>_. Suc 0" and D = UNIV]) simp_all
  with res have en: "en = Exhausted" by simp
  have p: "pending st' = []"
    using res en loop_Exhausted_pending unfolding run_def by blast
  from run_first_results [OF assms(1) res] en p show ?thesis
    by (simp add: res)
qed

theorem always_false_one_step_witness:
  "length (seeds 2) \<le> length [(0::nat, (1::real, 0::real)), (0, (0, 1))]
   \<and> fst (run (\<lambda>d p. Inr (step d p) :: unit + pos) (\<lambda>r. False) (seeds 2)
         [(0, (1, 0)), (0, (0, 1))]) = Exhausted
   \<and> submitted (snd (run (\<lambda>d p. Inr (step d p) :: unit + pos) (\<lambda>r. False) (seeds 2)
         [(0, (1, 0)), (0, (0, 1))])) = seeds 2"
proof -
  let ?F = "\<lambda>d p. Inr (step d p) :: unit + pos"
  have h1: "\<forall>r::pos. \<not> (\<lambda>r. False) r" by simp
  have h2: "\<forall>d a. \<exists>r. ?F d a = Inr r" by blast
  have h3: "length (seeds 2) \<le> length [(0::nat, (1::real, 0::real)), (0, (0, 1))]"
    by (simp add: seeds_def)
  from always_false_one_step [of "\<lambda>r. False" ?F "seeds 2", OF h1 h2 h3] h3
  show ?thesis by blast
qed

text \<open>
  C7 (as the code has it): a step failure in task A ends the loop for every task. The
  lines printed before the failure stay as they are, and every other task B outstanding
  at that moment stays outstanding for good: its closing line is never printed.
\<close>

theorem step_failure_stops_other_tasks:
  assumes "preserves_id stepf" and "distinct (map fst seed_items)"
    and "run stepf should_continue seed_items p = (Waiting, st0)"
    and "next_completed c (pending st0) = (a, rest)"
    and "stepf d a = Inl e"
    and "b \<in> set rest"
  shows "fst (run stepf should_continue seed_items (p @ (c, d) # later)) = Raised e
       \<and> printed (snd (run stepf should_continue seed_items (p @ (c, d) # later))) = printed st0
       \<and> b \<in> set (pending (snd (run stepf should_continue seed_items (p @ (c, d) # later))))
       \<and> fst b \<noteq> fst a
       \<and> Walk_done (fst b)
           \<notin> set (printed (snd (run stepf should_continue seed_items (p @ (c, d) # later))))"
proof -
  have ne: "pending st0 \<noteq> []"
    using assms(3) loop_Waiting_pending unfolding run_def by blast
  from next_completed_split [OF ne assms(4)]
  obtain xs ys where sp: "pending st0 = xs @ a # ys" "rest = xs @ ys" by blast
  have inv: "distinct (map fst (pending st0))
       \<and> (\<forall>b\<in>set (pending st0). Walk_done (fst b) \<notin> set (printed st0))"
    by (rule run_pending_not_done [OF assms(1,2,3)]) simp
  have 1: "Walk_done (fst b) \<notin> set (printed st0)" using inv sp assms(6) by auto
  have "fst a \<notin> fst ` set rest" using inv sp by auto
  then have 2: "fst b \<noteq> fst a" using assms(6) by (metis imageI)
  from failure_step [OF assms(3,4,5), of later] 1 2 assms(6) show ?thesis by simp
qed

theorem step_failure_stops_other_tasks_witness:
  "run (\<lambda>(d::unit) p. if fst p = 0 then Inl ''boom'' else Inr (step (1 / 2, 0) p))
        within_distance [(0, 0, 0), (1, 0, 0)] [(1, ())]
       = (Waiting, \<lparr>pending = [(0, 0, 0), (1, 1 / 2, 0)],
                    submitted = [(0, 0, 0), (1, 0, 0), (1, 1 / 2, 0)],
                    printed = [Result (1, 1 / 2, 0)]\<rparr>)
   \<and> next_completed 0 [(0, 0, 0), (1, 1 / 2, 0)] = ((0, 0, 0), [(1, 1 / 2, 0)])
   \<and> (1, 1 / 2, 0) \<in> set [(1, 1 / 2, 0) :: pos]
   \<and> fst (run (\<lambda>(d::unit) p. if fst p = 0 then Inl ''boom'' else Inr (step (1 / 2, 0) p))
        within_distance [(0, 0, 0), (1, 0, 0)] ([(1, ())] @ (0, ()) # [(0, ()), (0, ())]))
       = Raised ''boom''
   \<and> Walk_done 1 \<notin> set (printed (snd (run
        (\<lambda>(d::unit) p. if fst p = 0 then Inl ''boom'' else Inr (step (1 / 2, 0) p))
        within_distance [(0, 0, 0), (1, 0, 0)] ([(1, ())] @ (0, ()) # [(0, ()), (0, ())]))))"
proof -
  let ?F = "\<lambda>(d::unit) p. if fst p = 0 then Inl ''boom'' else Inr (step (1 / 2, 0) p)"
  let ?seeds = "[(0, 0, 0), (1, 0, 0)] :: pos list"
  let ?st0 = "\<lparr>pending = [(0, 0, 0), (1, 1 / 2, 0)],
               submitted = [(0, 0, 0), (1, 0, 0), (1, 1 / 2, 0)],
               printed = [Result (1, 1 / 2, 0)]\<rparr>"
  have h1: "preserves_id ?F" by (simp add: preserves_id_def step_def)
  have h2: "distinct (map fst ?seeds)" by simp
  have h3: "run ?F within_distance ?seeds [(1, ())] = (Waiting, ?st0)"
    by (simp add: run_def next_completed_def loop_body_def Let_def step_def wd_vals)
  have n: "next_completed 0 [(0, 0, 0), (1, 1 / 2, 0)] = ((0, 0, 0), [(1, 1 / 2, 0)])"
    by (simp add: next_completed_def)
  then have h4: "next_completed 0 (pending ?st0) = ((0, 0, 0), [(1, 1 / 2, 0)])" by simp
  have h5: "?F () (0, 0, 0) = Inl ''boom''" by simp
  have h6: "(1, 1 / 2, 0) \<in> set [(1, 1 / 2, 0) :: pos]" by simp
  from step_failure_stops_other_tasks [of ?F ?seeds within_distance "[(1, ())]" ?st0 0
      "(0, 0, 0)" "[(1, 1 / 2, 0)]" "()" "''boom''" "(1, 1 / 2, 0)" "[(0, ()), (0, ())]",
      OF h1 h2 h3 h4 h5 h6]
  have c: "fst (run ?F within_distance ?seeds ([(1, ())] @ (0, ()) # [(0, ()), (0, ())]))
         = Raised ''boom''
     \<and> Walk_done 1 \<notin> set (printed (snd (run ?F within_distance ?seeds
          ([(1, ())] @ (0, ()) # [(0, ()), (0, ())]))))"
    by simp
  with h3 n h6 show ?thesis by blast
qed

text \<open>
  C7, a counterexample to the claim as stated: task 1 has made one step and is outstanding when task 0
  fails; the loop is left by the exception and task 1 never gets a terminal result,
  however long the schedule.
\<close>

theorem failure_blocks_other_task:
  "fst (run (\<lambda>(d::unit) p. if fst p = 0 then Inl ''boom'' else Inr (step (1 / 2, 0) p))
         within_distance [(0, 0, 0), (1, 0, 0)] [(1, ()), (0, ()), (0, ()), (0, ())]) = Raised ''boom''
   \<and> pending (snd (run (\<lambda>(d::unit) p. if fst p = 0 then Inl ''boom'' else Inr (step (1 / 2, 0) p))
         within_distance [(0, 0, 0), (1, 0, 0)] [(1, ()), (0, ()), (0, ()), (0, ())])) = [(1, 1 / 2, 0)]
   \<and> Walk_done 1 \<notin> set (printed (snd (run (\<lambda>(d::unit) p. if fst p = 0 then Inl ''boom'' else Inr (step (1 / 2, 0) p))
         within_distance [(0, 0, 0), (1, 0, 0)] [(1, ()), (0, ()), (0, ()), (0, ())])))"
  unfolding failing_run_second by simp

end
